theory Spec2Isabelle
  imports Main "HOL-Library.Char_ord" "HOL-Library.List_Lexorder"
begin

unbundle bit_operations_syntax

section \<open>Values and their canonical encoding\<close>

text \<open>
  The program handles JSON-like Python values: strings, integers, floats (block timestamps),
  lists and dictionaries with string keys. A dictionary is an association list in insertion
  order; Python dictionaries never hold a key twice, so well-formed dictionaries have distinct
  keys. A float is carried by the text that \<^verbatim>\<open>json.dumps\<close> prints for it: the program never
  computes with a timestamp, it only stores and prints it. Characters are code points below 256.
\<close>

datatype json =
    JStr string
  | JInt int
  | JFloat string
  | JList "json list"
  | JDict "(string \<times> json) list"

datatype error = IndexError | KeyError | TypeError

definition hexdigit :: "int \<Rightarrow> char" where
  "hexdigit n = ''0123456789abcdef'' ! nat (n mod 16)"

text \<open>
  \<^verbatim>\<open>json.dumps\<close> with the default \<^verbatim>\<open>ensure_ascii=True\<close>: the quote and the backslash are
  escaped, the five short control escapes are used, and every other character outside the
  printable ASCII range (space to tilde) becomes a four-digit lower-case hexadecimal escape.
\<close>

definition escape_char :: "char \<Rightarrow> string" where
  "escape_char c =
     (let n = (of_char c :: int) in
      if n = 34 then [CHR 0x5C, CHR 0x22]
      else if n = 92 then [CHR 0x5C, CHR 0x5C]
      else if n = 10 then [CHR 0x5C, CHR ''n'']
      else if n = 13 then [CHR 0x5C, CHR ''r'']
      else if n = 9 then [CHR 0x5C, CHR ''t'']
      else if n = 8 then [CHR 0x5C, CHR ''b'']
      else if n = 12 then [CHR 0x5C, CHR ''f'']
      else if 32 \<le> n \<and> n \<le> 126 then [c]
      else [CHR 0x5C, CHR ''u'', CHR ''0'', CHR ''0'', hexdigit (n div 16), hexdigit n])"

definition json_string :: "string \<Rightarrow> string" where
  "json_string s = [CHR 0x22] @ concat (map escape_char s) @ [CHR 0x22]"

text \<open>Python prints an integer in decimal, with a minus sign when it is negative.\<close>

function digits :: "int \<Rightarrow> string" where
  "digits n =
     (if n < 10 then [char_of (48 + n)]
      else digits (n div 10) @ [char_of (48 + n mod 10)])"
  by pat_completeness auto
termination
  by (relation "measure nat") auto

declare digits.simps [simp del]

definition int_repr :: "int \<Rightarrow> string" where
  "int_repr i = (if i < 0 then CHR ''-'' # digits (- i) else digits i)"

fun join :: "string \<Rightarrow> string list \<Rightarrow> string" where
  "join sep [] = []"
| "join sep [x] = x"
| "join sep (x # y # ys) = x @ sep @ join sep (y # ys)"

lemma size_json_list_member: "x \<in> set xs \<Longrightarrow> size x < size (JList xs)"
  by (induction xs) auto

lemma size_json_dict_member:
  "kv \<in> set kvs \<Longrightarrow> size (snd kv) < size (JDict kvs)"
  by (induction kvs) auto

text \<open>
  \<^verbatim>\<open>canonical(obj) = json.dumps(obj, sort_keys=True, separators=(',', ':')).encode()\<close>.
  With \<^verbatim>\<open>sort_keys\<close> the items of every dictionary are emitted in the order of their keys
  (strings compare lexicographically by code point); the separators carry no whitespace.
  The output is ASCII, so encoding it to bytes changes nothing.
\<close>

function canonical :: "json \<Rightarrow> string" where
  "canonical (JStr s) = json_string s"
| "canonical (JInt i) = int_repr i"
| "canonical (JFloat r) = r"
| "canonical (JList xs) = ''['' @ join '','' (map canonical xs) @ '']''"
| "canonical (JDict kvs) =
     ''{'' @ join '','' (map (\<lambda>kv. json_string (fst kv) @ '':'' @ canonical (snd kv))
                          (sort_key fst kvs)) @ ''}''"
  by pat_completeness auto
termination
proof (relation "measure size")
  show "wf (measure size)" by simp
next
  fix xs :: "json list" and x
  assume "x \<in> set xs"
  then show "(x, JList xs) \<in> measure size"
    using size_json_list_member [of x xs] by simp
next
  fix kvs :: "(string \<times> json) list" and kv
  assume "kv \<in> set (sort_key fst kvs)"
  then have "kv \<in> set kvs" by simp
  then show "(snd kv, JDict kvs) \<in> measure size"
    using size_json_dict_member [of kv kvs] by simp
qed

section \<open>Merkle tree\<close>

text \<open>
  The hash function is \<^verbatim>\<open>hashlib.sha256(x).hexdigest()\<close>, which is not part of the repository:
  every function that hashes takes it as its first argument \<open>H\<close>, from bytes to a hexadecimal
  string.
\<close>

type_synonym hasher = "string \<Rightarrow> string"

text \<open>\<^verbatim>\<open>if len(prev) % 2 == 1: prev = prev + [prev[-1]]\<close>\<close>

definition pad_even :: "'a list \<Rightarrow> 'a list" where
  "pad_even prev = (if length prev mod 2 = 1 then prev @ [last prev] else prev)"

text \<open>
  The inner loop \<^verbatim>\<open>for i in range(0, len(prev), 2)\<close> over a layer of even length. On a
  layer of odd length Python would raise at \<^verbatim>\<open>prev[i+1]\<close>; the loop only ever runs on a padded
  layer (lemma \<open>even_length_pad_even\<close>), so the third equation is never reached.
\<close>

fun pair_up :: "hasher \<Rightarrow> string list \<Rightarrow> string list" where
  "pair_up H (a # b # rest) = H (a @ b) # pair_up H rest"
| "pair_up H [] = []"
| "pair_up H [a] = []"

lemma length_pair_up: "length (pair_up H xs) = length xs div 2"
  by (induction H xs rule: pair_up.induct) auto

lemma length_pad_even: "length (pad_even xs) = length xs + length xs mod 2"
  by (simp add: pad_even_def)

lemma even_length_pad_even: "even (length (pad_even xs))"
  by (simp add: pad_even_def) presburger

text \<open>The \<^verbatim>\<open>while len(layers[-1]) > 1\<close> loop, started from the leaf layer.\<close>

function build_layers :: "hasher \<Rightarrow> string list \<Rightarrow> string list list" where
  "build_layers H prev =
     (if length prev > 1 then prev # build_layers H (pair_up H (pad_even prev)) else [prev])"
  by pat_completeness auto
termination
  by (relation "measure (\<lambda>(H, prev). length prev)")
     (auto simp: length_pair_up length_pad_even)

declare build_layers.simps [simp del]

definition leaves_of :: "hasher \<Rightarrow> json list \<Rightarrow> string list" where
  "leaves_of H items =
     (let leaves = map (\<lambda>x. H (canonical x)) items in if leaves = [] then [H ''''] else leaves)"

definition merkle_layers :: "hasher \<Rightarrow> json list \<Rightarrow> string list list" where
  "merkle_layers H items = build_layers H (leaves_of H items)"

text \<open>\<^verbatim>\<open>merkle_layers(items)[-1][0]\<close>; the last layer always holds exactly one digest.\<close>

definition merkle_root :: "hasher \<Rightarrow> json list \<Rightarrow> string" where
  "merkle_root H items = hd (last (merkle_layers H items))"

text \<open>Python list indexing: negative indices count from the end, anything else out of range raises.\<close>

definition py_index :: "'a list \<Rightarrow> int \<Rightarrow> 'a option" where
  "py_index l k =
     (let n = int (length l) in
      if 0 \<le> k \<and> k < n then Some (l ! nat k)
      else if - n \<le> k \<and> k < 0 then Some (l ! nat (n + k))
      else None)"

text \<open>The loop of \<^verbatim>\<open>merkle_proof\<close> over \<^verbatim>\<open>layers[:-1]\<close>, with the running index \<^verbatim>\<open>idx\<close>.\<close>

fun proof_loop :: "string list list \<Rightarrow> int \<Rightarrow> error + (string \<times> string) list" where
  "proof_loop [] idx = Inr []"
| "proof_loop (layer # rest) idx =
     (let l = (if length layer mod 2 = 0 then layer else layer @ [last layer]);
          sibling_index = idx XOR 1
      in case py_index l sibling_index of
           None \<Rightarrow> Inl IndexError
         | Some sibling_hash \<Rightarrow>
             (let direction = (if sibling_index < idx then ''L'' else ''R'')
              in case proof_loop rest (idx div 2) of
                   Inl e \<Rightarrow> Inl e
                 | Inr proof \<Rightarrow> Inr ((sibling_hash, direction) # proof)))"

definition merkle_proof :: "hasher \<Rightarrow> json list \<Rightarrow> int \<Rightarrow> error + (string \<times> string) list" where
  "merkle_proof H items index = proof_loop (butlast (merkle_layers H items)) index"

fun verify_loop :: "hasher \<Rightarrow> string \<Rightarrow> (string \<times> string) list \<Rightarrow> string" where
  "verify_loop H h [] = h"
| "verify_loop H h ((sibling_hash, direction) # rest) =
     (if direction = ''L'' then verify_loop H (H (sibling_hash @ h)) rest
      else verify_loop H (H (h @ sibling_hash)) rest)"

definition verify_merkle_proof :: "hasher \<Rightarrow> json \<Rightarrow> (string \<times> string) list \<Rightarrow> string \<Rightarrow> bool" where
  "verify_merkle_proof H leaf proof root = (verify_loop H (H (canonical leaf)) proof = root)"

section \<open>Blocks\<close>

text \<open>
  The class \<^verbatim>\<open>Block\<close>. The field \<^verbatim>\<open>merkle_root\<close> is called \<open>stored_root\<close> here, since
  \<open>merkle_root\<close> already names the function.
\<close>

record block =
  index :: int
  transactions :: "json list"
  timestamp :: string
  previous_hash :: string
  nonce :: int
  stored_root :: string
  hash :: string

definition compute_hash :: "hasher \<Rightarrow> block \<Rightarrow> string" where
  "compute_hash H b =
     H (canonical (JDict
       [(''index'', JInt (index b)),
        (''transactions'', JList (transactions b)),
        (''timestamp'', JFloat (timestamp b)),
        (''previous_hash'', JStr (previous_hash b)),
        (''nonce'', JInt (nonce b)),
        (''merkle_root'', JStr (stored_root b))]))"

text \<open>\<^verbatim>\<open>Block.__init__\<close>: the root is computed from the transactions, then the hash from the fields.\<close>

definition Block :: "hasher \<Rightarrow> int \<Rightarrow> json list \<Rightarrow> string \<Rightarrow> string \<Rightarrow> int \<Rightarrow> block" where
  "Block H i txs ts prev n =
     (let b = \<lparr>index = i, transactions = txs, timestamp = ts, previous_hash = prev, nonce = n,
                stored_root = merkle_root H txs, hash = []\<rparr>
      in b\<lparr>hash := compute_hash H b\<rparr>)"

definition to_dict :: "block \<Rightarrow> json" where
  "to_dict b =
     JDict
       [(''index'', JInt (index b)),
        (''transactions'', JList (transactions b)),
        (''timestamp'', JFloat (timestamp b)),
        (''previous_hash'', JStr (previous_hash b)),
        (''nonce'', JInt (nonce b)),
        (''merkle_root'', JStr (stored_root b)),
        (''hash'', JStr (hash b))]"

section \<open>The ledger\<close>

text \<open>
  The class \<^verbatim>\<open>Blockchain\<close>. The file \<^verbatim>\<open>chain.json\<close> is part of the state: \<open>None\<close> while it
  does not exist, otherwise the JSON value last written to it. The clock is an input: each
  operation that reads \<^verbatim>\<open>time.time()\<close> takes the value read as an argument.
\<close>

record blockchain =
  difficulty :: int
  unconfirmed_transactions :: "json list"
  chain :: "block list"
  chain_file :: "json option"

definition save_chain :: "blockchain \<Rightarrow> blockchain" where
  "save_chain s = s\<lparr>chain_file := Some (JList (map to_dict (chain s)))\<rparr>"

definition create_genesis :: "hasher \<Rightarrow> string \<Rightarrow> blockchain \<Rightarrow> blockchain" where
  "create_genesis H now s =
     (let genesis = Block H 0 [] now ''0'' 0;
          genesis = genesis\<lparr>hash := compute_hash H genesis\<rparr>
      in save_chain (s\<lparr>chain := [genesis]\<rparr>))"

text \<open>
  \<^verbatim>\<open>Blockchain.__init__\<close> when \<^verbatim>\<open>chain.json\<close> does not exist: \<^verbatim>\<open>load_chain\<close> goes
  straight to \<^verbatim>\<open>create_genesis\<close>.
\<close>

definition new_blockchain :: "hasher \<Rightarrow> int \<Rightarrow> string \<Rightarrow> blockchain" where
  "new_blockchain H d now =
     create_genesis H now
       \<lparr>difficulty = d, unconfirmed_transactions = [], chain = [], chain_file = None\<rparr>"

text \<open>Subscription \<^verbatim>\<open>t[key]\<close> with a string key.\<close>

fun getitem :: "json \<Rightarrow> string \<Rightarrow> error + json" where
  "getitem (JDict kvs) k = (case map_of kvs k of None \<Rightarrow> Inl KeyError | Some v \<Rightarrow> Inr v)"
| "getitem _ k = Inl TypeError"

text \<open>
  The duplicate scan of \<^verbatim>\<open>add_transaction\<close>. Python's \<^verbatim>\<open>and\<close> evaluates
  \<^verbatim>\<open>t["course"]\<close> only when the student ids are equal.
\<close>

fun pending_duplicate :: "json list \<Rightarrow> string \<Rightarrow> string \<Rightarrow> error + bool" where
  "pending_duplicate [] student_id course = Inr False"
| "pending_duplicate (t # ts) student_id course =
     (case getitem t ''student_id'' of
        Inl e \<Rightarrow> Inl e
      | Inr sid \<Rightarrow>
          if sid = JStr student_id then
            (case getitem t ''course'' of
               Inl e \<Rightarrow> Inl e
             | Inr c \<Rightarrow> if c = JStr course then Inr True
                        else pending_duplicate ts student_id course)
          else pending_duplicate ts student_id course)"

definition add_transaction ::
  "string \<Rightarrow> string \<Rightarrow> string \<Rightarrow> string \<Rightarrow> int \<Rightarrow> blockchain \<Rightarrow> error + (bool \<times> blockchain)" where
  "add_transaction student_id name course grade now s =
     (let tx = JDict [(''student_id'', JStr student_id), (''name'', JStr name),
                      (''course'', JStr course), (''grade'', JStr grade),
                      (''issued_at'', JInt now)]
      in case pending_duplicate (unconfirmed_transactions s) student_id course of
           Inl e \<Rightarrow> Inl e
         | Inr True \<Rightarrow> Inr (False, s)
         | Inr False \<Rightarrow>
             Inr (True, s\<lparr>unconfirmed_transactions := unconfirmed_transactions s @ [tx]\<rparr>))"

definition startswith :: "string \<Rightarrow> string \<Rightarrow> bool" where
  "startswith s prefix = (take (length prefix) s = prefix)"

text \<open>\<^verbatim>\<open>"0" * difficulty\<close>; a count below one gives the empty string.\<close>

definition target :: "int \<Rightarrow> string" where
  "target d = replicate (nat d) CHR ''0''"

text \<open>
  The search of \<^verbatim>\<open>proof_of_work\<close> mutates the block until its hash has the prefix and may
  run forever: \<open>None\<close> stands for a search that never ends. The model returns the sealed block.
\<close>

partial_function (option) proof_of_work :: "hasher \<Rightarrow> int \<Rightarrow> block \<Rightarrow> block option" where
  "proof_of_work H d b =
     (if startswith (hash b) (target d) then Some b
      else proof_of_work H d
             (b\<lparr>nonce := nonce b + 1,
                hash := compute_hash H (b\<lparr>nonce := nonce b + 1\<rparr>)\<rparr>))"

text \<open>
  \<^verbatim>\<open>mine\<close> returns the pair \<^verbatim>\<open>(ok, block)\<close> and the new state; \<^verbatim>\<open>last_block\<close> raises on an
  empty chain; the whole result is \<open>None\<close> when the search does not end.
\<close>

definition mine ::
  "hasher \<Rightarrow> string \<Rightarrow> blockchain \<Rightarrow> (error + (bool \<times> block option \<times> blockchain)) option" where
  "mine H now s =
     (if unconfirmed_transactions s = [] then Some (Inr (False, None, s))
      else if chain s = [] then Some (Inl IndexError)
      else
        (let lastb = last (chain s);
             new_block = Block H (index lastb + 1) (unconfirmed_transactions s) now (hash lastb) 0
         in case proof_of_work H (difficulty s) new_block of
              None \<Rightarrow> None
            | Some sealed \<Rightarrow>
                Some (Inr (True, Some sealed,
                  save_chain (s\<lparr>chain := chain s @ [sealed], unconfirmed_transactions := []\<rparr>)))))"

text \<open>
  The ledgers a fresh process can reach: created with a genesis block, then any sequence of
  submissions and mining runs that return.
\<close>

inductive reachable :: "hasher \<Rightarrow> blockchain \<Rightarrow> bool" for H :: hasher where
  init: "reachable H (new_blockchain H d now)"
| submit: "reachable H s \<Longrightarrow> add_transaction sid name course grade now s = Inr (ok, s') \<Longrightarrow>
           reachable H s'"
| mined: "reachable H s \<Longrightarrow> mine H now s = Some (Inr (ok, blk, s')) \<Longrightarrow> reachable H s'"

text \<open>
  The block the search of \<^verbatim>\<open>proof_of_work\<close> holds after \<open>n\<close> increments of the nonce.
\<close>

definition candidate :: "hasher \<Rightarrow> block \<Rightarrow> nat \<Rightarrow> block" where
  "candidate H b n =
     (if n = 0 then b
      else b\<lparr>nonce := nonce b + int n, hash := compute_hash H (b\<lparr>nonce := nonce b + int n\<rparr>)\<rparr>)"

definition linked :: "block list \<Rightarrow> bool" where
  "linked bs \<longleftrightarrow> (\<forall>k. 1 \<le> k \<and> k < length bs \<longrightarrow> previous_hash (bs ! k) = hash (bs ! (k - 1)))"

text \<open>A pending entry on which the duplicate scan can read both identity fields.\<close>

definition has_identity :: "json \<Rightarrow> bool" where
  "has_identity t \<longleftrightarrow> \<not> isl (getitem t ''student_id'') \<and> \<not> isl (getitem t ''course'')"

text \<open>The pool holds an entry with this student id and this course.\<close>

definition pending_has :: "json list \<Rightarrow> string \<Rightarrow> string \<Rightarrow> bool" where
  "pending_has ts student_id course \<longleftrightarrow>
     (\<exists>t\<in>set ts. getitem t ''student_id'' = Inr (JStr student_id) \<and>
                 getitem t ''course'' = Inr (JStr course))"

text \<open>The dictionary \<^verbatim>\<open>tx\<close> that \<^verbatim>\<open>add_transaction\<close> builds.\<close>

definition certificate :: "string \<Rightarrow> string \<Rightarrow> string \<Rightarrow> string \<Rightarrow> int \<Rightarrow> json" where
  "certificate student_id name course grade now =
     JDict [(''student_id'', JStr student_id), (''name'', JStr name),
            (''course'', JStr course), (''grade'', JStr grade), (''issued_at'', JInt now)]"

text \<open>
  The same content, as Python's \<^verbatim>\<open>==\<close> on dictionaries and lists sees it: two dictionaries
  have the same keys and, under each key, values with the same content, whatever the insertion
  order at any nesting level; two lists have the same length and elementwise the same content.
  A dictionary never holds a key twice.
\<close>

function same_mapping :: "json \<Rightarrow> json \<Rightarrow> bool" where
  "same_mapping (JDict kvs) (JDict kvs') =
     (distinct (map fst kvs) \<and> distinct (map fst kvs') \<and> length kvs = length kvs' \<and>
      (\<forall>kv \<in> set kvs. \<exists>kv' \<in> set kvs'. fst kv' = fst kv \<and> same_mapping (snd kv) (snd kv')))"
| "same_mapping (JList xs) (JList ys) = list_all2 same_mapping xs ys"
| "same_mapping (JStr s) b = (b = JStr s)"
| "same_mapping (JInt i) b = (b = JInt i)"
| "same_mapping (JFloat r) b = (b = JFloat r)"
| "same_mapping (JDict kvs) (JStr s) = False"
| "same_mapping (JDict kvs) (JInt i) = False"
| "same_mapping (JDict kvs) (JFloat r) = False"
| "same_mapping (JDict kvs) (JList ys) = False"
| "same_mapping (JList xs) (JStr s) = False"
| "same_mapping (JList xs) (JInt i) = False"
| "same_mapping (JList xs) (JFloat r) = False"
| "same_mapping (JList xs) (JDict kvs') = False"
  by pat_completeness auto
termination
proof (relation "measure (\<lambda>(a, b). size a)")
  show "wf (measure (\<lambda>(a, b). size a))" by simp
next
  fix kvs kvs' :: "(string \<times> json) list" and kv kv'
  assume "kv \<in> set kvs"
  then show "((snd kv, snd kv'), (JDict kvs, JDict kvs')) \<in> measure (\<lambda>(a, b). size a)"
    using size_json_dict_member [of kv kvs] by simp
next
  fix xs ys :: "json list" and x y
  assume "x \<in> set xs"
  then show "((x, y), (JList xs, JList ys)) \<in> measure (\<lambda>(a, b). size a)"
    using size_json_list_member [of x xs] by simp
qed

section \<open>Example data\<close>

text \<open>
  The theorems below hold for every hash function \<open>H\<close>, SHA-256 among them. Where a closed
  statement needs a hash function that can be evaluated, it uses this small checksum: the sum
  of the character codes, written as four hexadecimal digits, lowest digit first.
\<close>

definition demo_hash :: hasher where
  "demo_hash s =
     (let n = sum_list (map of_char s) :: int
      in [hexdigit n, hexdigit (n div 16), hexdigit (n div 256), hexdigit (n div 4096)])"

definition cert_S1 :: json where
  "cert_S1 = certificate ''S1'' ''Alice'' ''Math'' ''A'' 1700000000"

definition cert_S2 :: json where
  "cert_S2 = certificate ''S2'' ''Bob'' ''Math'' ''B'' 1700000060"

definition cert_S3 :: json where
  "cert_S3 = certificate ''S3'' ''Carol'' ''Physics'' ''A'' 1700000120"

text \<open>The same certificate as \<open>cert_S1\<close>, with its fields inserted in another order.\<close>

definition cert_S1_reordered :: json where
  "cert_S1_reordered =
     JDict [(''issued_at'', JInt 1700000000), (''grade'', JStr ''A''), (''name'', JStr ''Alice''),
            (''student_id'', JStr ''S1''), (''course'', JStr ''Math'')]"

text \<open>A record with nested dictionaries, and the same content inserted in another order.\<close>

definition transcript :: json where
  "transcript =
     JDict [(''student'', JDict [(''id'', JStr ''S1''), (''name'', JStr ''Alice'')]),
            (''results'', JList [JDict [(''course'', JStr ''Math''), (''grade'', JStr ''A'')],
                                  JInt 2024])]"

definition transcript_reordered :: json where
  "transcript_reordered =
     JDict [(''results'', JList [JDict [(''grade'', JStr ''A''), (''course'', JStr ''Math'')],
                                  JInt 2024]),
            (''student'', JDict [(''name'', JStr ''Alice''), (''id'', JStr ''S1'')])]"

text \<open>
  A ledger of difficulty 1: fresh, then with two pending certificates, then mined. The search
  starts from \<open>demo_start\<close> and stops at the nonce 2.
\<close>

definition demo_genesis :: blockchain where
  "demo_genesis = new_blockchain demo_hash 1 ''1700000000.5''"

definition demo_pending :: blockchain where
  "demo_pending = demo_genesis\<lparr>unconfirmed_transactions := [cert_S1, cert_S2]\<rparr>"

definition demo_start :: block where
  "demo_start =
     Block demo_hash (index (last (chain demo_pending)) + 1) [cert_S1, cert_S2]
       ''1700000207.25'' (hash (last (chain demo_pending))) 0"

definition demo_block :: block where
  "demo_block = candidate demo_hash demo_start 2"

definition demo_mined :: blockchain where
  "demo_mined =
     demo_pending\<lparr>chain := chain demo_pending @ [demo_block], unconfirmed_transactions := [],
                  chain_file := Some (JList (map to_dict (chain demo_pending @ [demo_block])))\<rparr>"

text \<open>
  A ledger of difficulty 65 with one pending certificate: no digest of the checksum, and no
  SHA-256 digest of 64 characters, starts with 65 zeros.
\<close>

definition demo_stuck :: blockchain where
  "demo_stuck =
     (new_blockchain demo_hash 65 ''1700000000.5'')\<lparr>unconfirmed_transactions := [cert_S1]\<rparr>"

text \<open>A state with pending certificates and no block at all, which no constructor call leaves.\<close>

definition demo_no_chain :: blockchain where
  "demo_no_chain = demo_pending\<lparr>chain := []\<rparr>"

section \<open>Properties of the Merkle tree\<close>

lemma pair_up_nth:
  "even (length l) \<Longrightarrow> j < length l div 2 \<Longrightarrow> pair_up H l ! j = H (l ! (2 * j) @ l ! (2 * j + 1))"
proof (induction H l arbitrary: j rule: pair_up.induct)
  case (1 H a b rest)
  then show ?case by (cases j) auto
qed auto

lemma pad_even_nth: "i < length xs \<Longrightarrow> pad_even xs ! i = xs ! i"
  by (simp add: pad_even_def nth_append)

lemma pad_even_alt: "(if length layer mod 2 = 0 then layer else layer @ [last layer]) = pad_even layer"
  by (auto simp: pad_even_def)

lemma build_layers_nonempty: "build_layers H xs \<noteq> []"
  by (subst build_layers.simps) simp

lemma int_xor_one: "(i::int) XOR 1 = (if even i then i + 1 else i - 1)"
  by (simp add: xor_one_eq)

lemma py_index_in_range: "0 \<le> k \<Longrightarrow> k < int (length l) \<Longrightarrow> py_index l k = Some (l ! nat k)"
  by (simp add: py_index_def)

lemma step_hash:
  assumes "i < length xs"
  shows "int i XOR 1 < int (length (pad_even xs)) \<and> 0 \<le> int i XOR 1 \<and>
     (if int i XOR 1 < int i then H (pad_even xs ! nat (int i XOR 1) @ xs ! i)
      else H (xs ! i @ pad_even xs ! nat (int i XOR 1))) = pair_up H (pad_even xs) ! (i div 2)"
proof -
  let ?l = "pad_even xs"
  have ev: "even (length ?l)" by (rule even_length_pad_even)
  have il: "i < length ?l" using assms by (simp add: length_pad_even)
  have j: "i div 2 < length ?l div 2" using ev il by (auto elim!: evenE)
  note nth = pair_up_nth [OF ev j, of H]
  show ?thesis
  proof (cases "even i")
    case True
    then have x: "int i XOR 1 = int i + 1" by (simp add: int_xor_one)
    have "i + 1 < length ?l" using True ev il by (auto elim!: evenE)
    moreover have "2 * (i div 2) = i" using True by simp
    moreover have "nat (int i + 1) = i + 1" by simp
    ultimately show ?thesis using nth assms x by (simp add: pad_even_nth)
  next
    case False
    then have x: "int i XOR 1 = int i - 1" by (simp add: int_xor_one)
    have i1: "1 \<le> i" using False by (cases i) auto
    have "2 * (i div 2) + 1 = i" using False by (simp add: odd_two_times_div_two_succ)
    moreover have "2 * (i div 2) = i - 1" using False by (simp add: odd_two_times_div_two_nat)
    moreover have "nat (int i - 1) = i - 1" using i1 by simp
    ultimately show ?thesis using nth assms x il i1 by (simp add: pad_even_nth)
  qed
qed

lemma roundtrip_layers:
  "i < length xs \<Longrightarrow>
     \<exists>p. proof_loop (butlast (build_layers H xs)) (int i) = Inr p \<and>
         verify_loop H (xs ! i) p = hd (last (build_layers H xs))"
proof (induction H xs arbitrary: i rule: build_layers.induct)
  case (1 H prev)
  show ?case
  proof (cases "length prev > 1")
    case False
    with "1.prems" have "i = 0" by simp
    with False "1.prems" show ?thesis
      by (subst (1 2) build_layers.simps) (cases prev; simp)
  next
    case True
    let ?next = "pair_up H (pad_even prev)"
    have len: "i div 2 < length ?next"
      using "1.prems" by (simp add: length_pair_up length_pad_even) presburger
    from "1.IH" [OF True len] obtain p where
      p: "proof_loop (butlast (build_layers H ?next)) (int (i div 2)) = Inr p"
         "verify_loop H (?next ! (i div 2)) p = hd (last (build_layers H ?next))"
      by blast
    have unf: "build_layers H prev = prev # build_layers H ?next"
      using True by (subst build_layers.simps) simp
    have d2: "int i div 2 = int (i div 2)" by simp
    from step_hash [OF "1.prems", of H]
    show ?thesis
      unfolding unf using p
      by (auto simp add: build_layers_nonempty pad_even_alt py_index_in_range d2 Let_def simp del: of_nat_div split: if_splits)
  qed
qed

lemma leaves_of_nonempty: "items \<noteq> [] \<Longrightarrow> leaves_of H items = map (\<lambda>x. H (canonical x)) items"
  by (simp add: leaves_of_def)

lemma length_leaves_of: "items \<noteq> [] \<Longrightarrow> length (leaves_of H items) = length items"
  by (simp add: leaves_of_nonempty)

lemma pad_even_idem: "pad_even (pad_even xs) = pad_even xs"
  using even_length_pad_even [of xs] by (simp add: pad_even_def [of "pad_even xs"])

lemma root_pad_even:
  assumes "length xs > 1"
  shows "last (build_layers H (pad_even xs)) = last (build_layers H xs)"
proof -
  have "length (pad_even xs) > 1" using assms by (simp add: length_pad_even)
  then have "build_layers H (pad_even xs) = pad_even xs # build_layers H (pair_up H (pad_even xs))"
    by (subst build_layers.simps) (simp add: pad_even_idem)
  moreover have "build_layers H xs = xs # build_layers H (pair_up H (pad_even xs))"
    using assms by (subst build_layers.simps) simp
  ultimately show ?thesis by (simp add: build_layers_nonempty)
qed

lemma xor_one_bounds:
  fixes i :: int
  assumes "even p"
  shows "(- p \<le> i XOR 1 \<and> i XOR 1 < p) \<longleftrightarrow> (- p \<le> i \<and> i < p)"
  using assms by (cases "even i") (auto simp: int_xor_one elim!: evenE oddE)

lemma py_index_None: "py_index l k = None \<longleftrightarrow> (k < - int (length l) \<or> int (length l) \<le> k)"
  by (auto simp: py_index_def Let_def)

lemma proof_loop_fails_first:
  assumes "length xs > 1"
    and "i < - int (length (pad_even xs)) \<or> int (length (pad_even xs)) \<le> i"
  shows "proof_loop (butlast (build_layers H xs)) i = Inl IndexError"
proof -
  have unf: "build_layers H xs = xs # build_layers H (pair_up H (pad_even xs))"
    using assms(1) by (subst build_layers.simps) simp
  have ev: "even (int (length (pad_even xs)))" using even_length_pad_even [of xs] by simp
  have "py_index (pad_even xs) (i XOR 1) = None"
    using xor_one_bounds [OF ev, of i] assms(2) by (auto simp: py_index_None)
  then show ?thesis
    unfolding unf by (simp add: build_layers_nonempty pad_even_alt Let_def)
qed

lemma proof_loop_succeeds:
  "- int (length (pad_even xs)) \<le> i \<Longrightarrow> i < int (length (pad_even xs)) \<Longrightarrow>
     \<exists>p. proof_loop (butlast (build_layers H xs)) i = Inr p"
proof (induction H xs arbitrary: i rule: build_layers.induct)
  case (1 H prev)
  show ?case
  proof (cases "length prev > 1")
    case False
    then show ?thesis by (subst build_layers.simps) simp
  next
    case True
    let ?next = "pair_up H (pad_even prev)"
    have unf: "build_layers H prev = prev # build_layers H ?next"
      using True by (subst build_layers.simps) simp
    have ev: "even (int (length (pad_even prev)))" using even_length_pad_even [of prev] by simp
    have ln: "int (length ?next) = int (length (pad_even prev)) div 2"
      by (simp add: length_pair_up)
    have "int (length ?next) \<le> int (length (pad_even ?next))" by (simp add: length_pad_even)
    moreover have "- int (length ?next) \<le> i div 2" "i div 2 < int (length ?next)"
      using "1.prems" ev unfolding ln by (auto elim!: evenE)
    ultimately have "- int (length (pad_even ?next)) \<le> i div 2" "i div 2 < int (length (pad_even ?next))"
      by linarith+
    from "1.IH" [OF True this] obtain p where
      p: "proof_loop (butlast (build_layers H ?next)) (i div 2) = Inr p" by blast
    have "py_index (pad_even prev) (i XOR 1) \<noteq> None"
      using xor_one_bounds [OF ev, of i] "1.prems" by (auto simp: py_index_None)
    then obtain h where "py_index (pad_even prev) (i XOR 1) = Some h" by auto
    then show ?thesis
      unfolding unf using p by (simp add: build_layers_nonempty pad_even_alt Let_def)
  qed
qed

lemma proof_loop_single: "length xs \<le> 1 \<Longrightarrow> proof_loop (butlast (build_layers H xs)) i = Inr []"
  by (subst build_layers.simps) simp

lemma length_leaves_le1: "length items \<le> 1 \<Longrightarrow> length (leaves_of H items) \<le> 1"
  by (cases items) (auto simp: leaves_of_def)

lemma verify_loop_tags:
  "list_all2 (\<lambda>a b. fst a = fst b \<and> (snd a = ''L'' \<longleftrightarrow> snd b = ''L'')) p q \<Longrightarrow>
     verify_loop H h p = verify_loop H h q"
proof (induction p q arbitrary: h rule: list_all2_induct)
  case Nil
  then show ?case by simp
next
  case (Cons x xs y ys)
  then show ?case by (cases x; cases y) auto
qed

lemma build_layers_step:
  "Suc k < length (build_layers H xs) \<Longrightarrow>
     build_layers H xs ! Suc k = pair_up H (pad_even (build_layers H xs ! k)) \<and>
     1 < length (build_layers H xs ! k)"
proof (induction H xs arbitrary: k rule: build_layers.induct)
  case (1 H prev)
  show ?case
  proof (cases "length prev > 1")
    case True
    then have e: "build_layers H prev = prev # build_layers H (pair_up H (pad_even prev))"
      by (subst build_layers.simps) simp
    show ?thesis
    proof (cases k)
      case 0
      have "build_layers H (pair_up H (pad_even prev)) ! 0 = pair_up H (pad_even prev)"
        by (subst build_layers.simps) simp
      with 0 True e show ?thesis by simp
    next
      case (Suc k')
      with "1.prems" e have "Suc k' < length (build_layers H (pair_up H (pad_even prev)))" by simp
      from "1.IH" [OF True this] Suc e show ?thesis by simp
    qed
  next
    case False
    then have "build_layers H prev = [prev]" by (subst build_layers.simps) simp
    with "1.prems" show ?thesis by simp
  qed
qed

lemma build_layers_hd: "build_layers H xs ! 0 = xs"
  by (subst build_layers.simps) simp

lemma build_layers_last: "xs \<noteq> [] \<Longrightarrow> length (last (build_layers H xs)) = 1"
proof (induction H xs rule: build_layers.induct)
  case (1 H prev)
  show ?case
  proof (cases "length prev > 1")
    case True
    then have e: "build_layers H prev = prev # build_layers H (pair_up H (pad_even prev))"
      by (subst build_layers.simps) simp
    from True have "length (pair_up H (pad_even prev)) > 0"
      by (simp add: length_pair_up length_pad_even)
    then have "pair_up H (pad_even prev) \<noteq> []" by auto
    from "1.IH" [OF True this] e show ?thesis by (simp add: build_layers_nonempty)
  next
    case False
    then have "build_layers H prev = [prev]" by (subst build_layers.simps) simp
    with False "1.prems" show ?thesis by (cases prev) auto
  qed
qed

lemma paired_nth:
  assumes "j < (length prev + 1) div 2"
  shows "pair_up H (pad_even prev) ! j =
     H (prev ! (2 * j) @ (if 2 * j + 1 < length prev then prev ! (2 * j + 1) else last prev))"
proof -
  have j: "j < length (pad_even prev) div 2" using assms by (simp add: length_pad_even) presburger
  have a: "2 * j < length prev" using assms by presburger
  from pair_up_nth [OF even_length_pad_even j]
  have "pair_up H (pad_even prev) ! j = H (pad_even prev ! (2 * j) @ pad_even prev ! (2 * j + 1))" .
  moreover have "pad_even prev ! (2 * j) = prev ! (2 * j)" using a by (rule pad_even_nth)
  moreover have "pad_even prev ! (2 * j + 1) =
      (if 2 * j + 1 < length prev then prev ! (2 * j + 1) else last prev)"
  proof (cases "2 * j + 1 < length prev")
    case True
    then show ?thesis by (simp add: pad_even_nth)
  next
    case False
    with a have l: "length prev = 2 * j + 1" by simp
    then have "odd (length prev)" by simp
    then have "pad_even prev = prev @ [last prev]" by (simp add: pad_even_def odd_iff_mod_2_eq_one)
    with l False show ?thesis by (simp add: nth_append)
  qed
  ultimately show ?thesis by simp
qed

lemma root_of_one: "merkle_root H [x] = H (canonical x)"
  by (simp add: merkle_root_def merkle_layers_def leaves_of_def build_layers.simps)

lemma root_of_three:
  "merkle_root H [x, y, z] =
     H (H (H (canonical x) @ H (canonical y)) @ H (H (canonical z) @ H (canonical z)))"
  by (simp add: merkle_root_def merkle_layers_def leaves_of_def build_layers.simps pad_even_def)

section \<open>Properties of mining\<close>

lemma compute_hash_hash_update [simp]: "compute_hash H (b\<lparr>hash := h\<rparr>) = compute_hash H b"
  by (simp add: compute_hash_def)

lemma proof_of_work_result:
  assumes "proof_of_work H d b = Some y"
  shows "startswith (hash y) (target d) \<and>
     (hash b = compute_hash H b \<longrightarrow> hash y = compute_hash H y) \<and>
     index y = index b \<and> transactions y = transactions b \<and> timestamp y = timestamp b \<and>
     previous_hash y = previous_hash b \<and> stored_root y = stored_root b \<and> nonce b \<le> nonce y"
proof (rule proof_of_work.raw_induct [where
      P = "\<lambda>H d b y. startswith (hash y) (target d) \<and>
     (hash b = compute_hash H b \<longrightarrow> hash y = compute_hash H y) \<and>
     index y = index b \<and> transactions y = transactions b \<and> timestamp y = timestamp b \<and>
     previous_hash y = previous_hash b \<and> stored_root y = stored_root b \<and> nonce b \<le> nonce y"
      and H = H and d = d and b = b and y = y])
  show "proof_of_work H d b = Some y" by (rule assms)
next
  fix pow :: "hasher \<Rightarrow> int \<Rightarrow> block \<Rightarrow> block option" and H d b y
  let ?b = "b\<lparr>nonce := nonce b + 1, hash := compute_hash H (b\<lparr>nonce := nonce b + 1\<rparr>)\<rparr>"
  assume IH: "\<And>H d b y. pow H d b = Some y \<Longrightarrow>
     startswith (hash y) (target d) \<and>
     (hash b = compute_hash H b \<longrightarrow> hash y = compute_hash H y) \<and>
     index y = index b \<and> transactions y = transactions b \<and> timestamp y = timestamp b \<and>
     previous_hash y = previous_hash b \<and> stored_root y = stored_root b \<and> nonce b \<le> nonce y"
    and step: "(if startswith (hash b) (target d) then Some b else pow H d ?b) = Some y"
  show "startswith (hash y) (target d) \<and>
     (hash b = compute_hash H b \<longrightarrow> hash y = compute_hash H y) \<and>
     index y = index b \<and> transactions y = transactions b \<and> timestamp y = timestamp b \<and>
     previous_hash y = previous_hash b \<and> stored_root y = stored_root b \<and> nonce b \<le> nonce y"
  proof (cases "startswith (hash b) (target d)")
    case True
    with step show ?thesis by simp
  next
    case False
    with step have "pow H d ?b = Some y" by simp
    note r = IH [OF this]
    have "hash ?b = compute_hash H ?b" by simp
    with r show ?thesis by auto
  qed
qed

lemma candidate_step:
  "candidate H (b\<lparr>nonce := nonce b + 1, hash := compute_hash H (b\<lparr>nonce := nonce b + 1\<rparr>)\<rparr>) n
     = candidate H b (Suc n)"
  by (cases n) (simp_all add: candidate_def compute_hash_def add.assoc)

lemma proof_of_work_terminates:
  "startswith (hash (candidate H b n)) (target d) \<Longrightarrow>
     \<exists>m\<le>n. proof_of_work H d b = Some (candidate H b m)"
proof (induction n arbitrary: b)
  case 0
  then show ?case by (subst proof_of_work.simps) (simp add: candidate_def)
next
  case (Suc n)
  show ?case
  proof (cases "startswith (hash b) (target d)")
    case True
    then have "proof_of_work H d b = Some (candidate H b 0)"
      by (subst proof_of_work.simps) (simp add: candidate_def)
    then show ?thesis by blast
  next
    case False
    let ?b = "b\<lparr>nonce := nonce b + 1, hash := compute_hash H (b\<lparr>nonce := nonce b + 1\<rparr>)\<rparr>"
    from Suc.prems have "startswith (hash (candidate H ?b n)) (target d)"
      by (simp add: candidate_step)
    from Suc.IH [OF this] obtain m where m: "m \<le> n" "proof_of_work H d ?b = Some (candidate H ?b m)"
      by blast
    have "proof_of_work H d b = proof_of_work H d ?b"
      using False by (subst proof_of_work.simps) simp
    with m have "proof_of_work H d b = Some (candidate H b (Suc m))" by (simp add: candidate_step)
    with m(1) show ?thesis by (metis Suc_le_mono)
  qed
qed

lemma proof_of_work_first:
  assumes "\<forall>m \<in> set [0..<n]. \<not> startswith (hash (candidate H b m)) (target d)"
    and "startswith (hash (candidate H b n)) (target d)"
  shows "proof_of_work H d b = Some (candidate H b n)"
  using assms
proof (induction n arbitrary: b)
  case 0
  then show ?case by (subst proof_of_work.simps) (simp add: candidate_def)
next
  case (Suc n)
  let ?b = "b\<lparr>nonce := nonce b + 1, hash := compute_hash H (b\<lparr>nonce := nonce b + 1\<rparr>)\<rparr>"
  have "0 \<in> set [0..<Suc n]" by auto
  with Suc.prems(1) have "\<not> startswith (hash (candidate H b 0)) (target d)" by blast
  then have F: "\<not> startswith (hash b) (target d)" by (simp add: candidate_def)
  have "\<forall>m \<in> set [0..<n]. \<not> startswith (hash (candidate H ?b m)) (target d)"
  proof
    fix m assume "m \<in> set [0..<n]"
    then have "Suc m \<in> set [0..<Suc n]" by auto
    with Suc.prems(1) have "\<not> startswith (hash (candidate H b (Suc m))) (target d)" by blast
    then show "\<not> startswith (hash (candidate H ?b m)) (target d)" by (simp add: candidate_step)
  qed
  moreover from Suc.prems(2) have "startswith (hash (candidate H ?b n)) (target d)"
    by (simp add: candidate_step)
  ultimately have "proof_of_work H d ?b = Some (candidate H ?b n)" by (rule Suc.IH)
  moreover have "proof_of_work H d b = proof_of_work H d ?b"
    using F by (subst proof_of_work.simps) simp
  ultimately show ?case by (simp add: candidate_step)
qed

lemma Block_fields [simp]:
  "index (Block H i txs ts prev n) = i"
  "transactions (Block H i txs ts prev n) = txs"
  "timestamp (Block H i txs ts prev n) = ts"
  "previous_hash (Block H i txs ts prev n) = prev"
  "nonce (Block H i txs ts prev n) = n"
  "stored_root (Block H i txs ts prev n) = merkle_root H txs"
  "hash (Block H i txs ts prev n) = compute_hash H (Block H i txs ts prev n)"
  by (simp_all add: Block_def Let_def compute_hash_def)

lemma mine_empty: "unconfirmed_transactions s = [] \<Longrightarrow> mine H now s = Some (Inr (False, None, s))"
  by (simp add: mine_def)

lemma mine_nonempty:
  assumes "unconfirmed_transactions s \<noteq> []" and "chain s \<noteq> []"
  shows "mine H now s =
     (case proof_of_work H (difficulty s)
             (Block H (index (last (chain s)) + 1) (unconfirmed_transactions s) now
                (hash (last (chain s))) 0) of
        None \<Rightarrow> None
      | Some sealed \<Rightarrow>
          Some (Inr (True, Some sealed,
            save_chain (s\<lparr>chain := chain s @ [sealed], unconfirmed_transactions := []\<rparr>))))"
  using assms by (simp add: mine_def Let_def)

lemma proof_of_work_candidate:
  assumes "proof_of_work H d b = Some y"
  shows "\<exists>n. y = candidate H b n \<and> startswith (hash y) (target d)"
proof (rule proof_of_work.raw_induct [where
      P = "\<lambda>H d b y. \<exists>n. y = candidate H b n \<and> startswith (hash y) (target d)"
      and H = H and d = d and b = b and y = y])
  show "proof_of_work H d b = Some y" by (rule assms)
next
  fix pow :: "hasher \<Rightarrow> int \<Rightarrow> block \<Rightarrow> block option" and H d b y
  let ?b = "b\<lparr>nonce := nonce b + 1, hash := compute_hash H (b\<lparr>nonce := nonce b + 1\<rparr>)\<rparr>"
  assume IH: "\<And>H d b y. pow H d b = Some y \<Longrightarrow>
       \<exists>n. y = candidate H b n \<and> startswith (hash y) (target d)"
    and step: "(if startswith (hash b) (target d) then Some b else pow H d ?b) = Some y"
  show "\<exists>n. y = candidate H b n \<and> startswith (hash y) (target d)"
  proof (cases "startswith (hash b) (target d)")
    case True
    with step have "y = candidate H b 0" by (simp add: candidate_def)
    with True step show ?thesis by auto
  next
    case False
    with step have "pow H d ?b = Some y" by simp
    from IH [OF this] obtain n where "y = candidate H ?b n" "startswith (hash y) (target d)"
      by blast
    then have "y = candidate H b (Suc n) \<and> startswith (hash y) (target d)"
      by (simp add: candidate_step)
    then show ?thesis by blast
  qed
qed

lemma proof_of_work_none:
  assumes "\<forall>n. \<not> startswith (hash (candidate H b n)) (target d)"
  shows "proof_of_work H d b = None"
proof (cases "proof_of_work H d b")
  case (Some y)
  from proof_of_work_candidate [OF Some] assms show ?thesis by blast
qed simp

lemma candidate_Block:
  "hash (candidate H (Block H i txs ts prev 0) n) =
     compute_hash H ((Block H i txs ts prev 0)\<lparr>nonce := int n\<rparr>)"
  "index (candidate H (Block H i txs ts prev 0) n) = i"
  "transactions (candidate H (Block H i txs ts prev 0) n) = txs"
  "timestamp (candidate H (Block H i txs ts prev 0) n) = ts"
  "previous_hash (candidate H (Block H i txs ts prev 0) n) = prev"
  "nonce (candidate H (Block H i txs ts prev 0) n) = int n"
  "stored_root (candidate H (Block H i txs ts prev 0) n) = merkle_root H txs"
  by (simp_all add: candidate_def compute_hash_def)

lemma candidate_sealed:
  "hash (candidate H (Block H i txs ts prev 0) n) =
     compute_hash H (candidate H (Block H i txs ts prev 0) n)"
  by (simp add: candidate_def)

lemma startswith_short: "length s < nat d \<Longrightarrow> \<not> startswith s (target d)"
proof
  assume a: "length s < nat d" and "startswith s (target d)"
  then have "take (nat d) s = replicate (nat d) CHR ''0''" by (simp add: startswith_def target_def)
  then have "length (take (nat d) s) = nat d" by simp
  with a show False by simp
qed

lemma mine_unreachable_target:
  assumes "unconfirmed_transactions s \<noteq> []" and "chain s \<noteq> []"
    and "\<forall>x. length (H x) < nat (difficulty s)"
  shows "mine H now s = None"
proof -
  let ?c = "Block H (index (last (chain s)) + 1) (unconfirmed_transactions s) now
              (hash (last (chain s))) 0"
  have "\<forall>n. \<not> startswith (hash (candidate H ?c n)) (target (difficulty s))"
  proof
    fix n
    have "length (hash (candidate H ?c n)) < nat (difficulty s)"
      using assms(3) by (simp add: candidate_Block(1) compute_hash_def)
    then show "\<not> startswith (hash (candidate H ?c n)) (target (difficulty s))"
      by (rule startswith_short)
  qed
  then have "proof_of_work H (difficulty s) ?c = None" by (rule proof_of_work_none)
  with mine_nonempty [OF assms(1,2), of H now] show ?thesis by simp
qed

lemma linked_snoc:
  assumes "linked bs" and "bs \<noteq> []" and "previous_hash b = hash (last bs)"
  shows "linked (bs @ [b])"
  unfolding linked_def
proof (intro allI impI)
  fix k assume k: "1 \<le> k \<and> k < length (bs @ [b])"
  show "previous_hash ((bs @ [b]) ! k) = hash ((bs @ [b]) ! (k - 1))"
  proof (cases "k < length bs")
    case True
    then have "k - 1 < length bs" by simp
    with True k assms(1) show ?thesis by (simp add: linked_def nth_append)
  next
    case False
    with k have "k = length bs" by simp
    with assms(2,3) show ?thesis by (simp add: nth_append last_conv_nth)
  qed
qed

lemma add_transaction_chain:
  "add_transaction sid name course grade now s = Inr (ok, s') \<Longrightarrow> chain s' = chain s"
  by (auto simp: add_transaction_def Let_def split: sum.splits bool.splits)

lemma mine_chain:
  assumes "mine H now s = Some (Inr (ok, blk, s'))" and "chain s \<noteq> []"
  shows "chain s' = chain s \<or>
         (\<exists>b. chain s' = chain s @ [b] \<and> previous_hash b = hash (last (chain s)))"
proof (cases "unconfirmed_transactions s = []")
  case True
  with assms show ?thesis by (simp add: mine_def)
next
  case False
  with assms obtain b where b: "proof_of_work H (difficulty s)
      (Block H (index (last (chain s)) + 1) (unconfirmed_transactions s) now (hash (last (chain s))) 0)
      = Some b" and s': "s' = save_chain (s\<lparr>chain := chain s @ [b], unconfirmed_transactions := []\<rparr>)"
    by (auto simp: mine_nonempty split: option.splits)
  from proof_of_work_result [OF b] s' show ?thesis by (simp add: save_chain_def)
qed

lemma pending_duplicate_spec:
  "list_all has_identity ts \<Longrightarrow>
     pending_duplicate ts sid course = Inr (pending_has ts sid course)"
proof (induction ts)
  case Nil
  then show ?case by (simp add: pending_has_def)
next
  case (Cons t ts)
  then have ih: "pending_duplicate ts sid course = Inr (pending_has ts sid course)" by simp
  from Cons.prems obtain a b where ab: "getitem t ''student_id'' = Inr a" "getitem t ''course'' = Inr b"
    by (cases "getitem t ''student_id''"; cases "getitem t ''course''") (auto simp: has_identity_def)
  show ?case using ab ih by (auto simp: pending_has_def)
qed

lemma has_identity_certificate: "has_identity (certificate sid name course grade now)"
  by (simp add: has_identity_def certificate_def)

lemma add_transaction_spec:
  assumes "list_all has_identity (unconfirmed_transactions s)"
  shows "add_transaction sid name course grade now s =
     (if pending_has (unconfirmed_transactions s) sid course then Inr (False, s)
      else Inr (True, s\<lparr>unconfirmed_transactions :=
                          unconfirmed_transactions s @ [certificate sid name course grade now]\<rparr>))"
  using pending_duplicate_spec [OF assms, of sid course]
  by (simp add: add_transaction_def certificate_def)

lemma mine_pending:
  assumes "mine H now s = Some (Inr (ok, blk, s'))"
  shows "(ok \<longrightarrow> unconfirmed_transactions s' = []) \<and>
         (\<not> ok \<longrightarrow> s' = s \<and> unconfirmed_transactions s = [])"
  using assms
  by (auto simp: mine_def Let_def save_chain_def split: if_splits option.splits)

lemma reachable_pending: "reachable H s \<Longrightarrow> list_all has_identity (unconfirmed_transactions s)"
proof (induction rule: reachable.induct)
  case (init d now)
  show ?case by (simp add: new_blockchain_def create_genesis_def save_chain_def Let_def)
next
  case (submit s sid name course grade now ok s')
  from submit.hyps(2) add_transaction_spec [OF submit.IH, of sid name course grade now]
  show ?case using submit.IH
    by (auto simp: has_identity_certificate split: if_splits)
next
  case (mined s now ok blk s')
  from mine_pending [OF mined.hyps(2)] mined.IH show ?case by (cases ok) auto
qed

lemma assoc_eq_by_keys:
  assumes "map fst xs = map fst ys" and "distinct (map fst ys)" and "set xs = set ys"
  shows "xs = ys"
proof (rule nth_equalityI)
  from assms(1) show len: "length xs = length ys" by (metis length_map)
  fix i assume i: "i < length xs"
  then have "xs ! i \<in> set ys" using assms(3) by (metis nth_mem)
  then obtain j where j: "j < length ys" "ys ! j = xs ! i" by (auto simp: in_set_conv_nth)
  have "map fst ys ! j = fst (xs ! i)" using j by simp
  also have "\<dots> = map fst xs ! i" using i by simp
  also have "\<dots> = map fst ys ! i" by (simp add: assms(1))
  finally have eq: "map fst ys ! j = map fst ys ! i" .
  have "j < length (map fst ys)" "i < length (map fst ys)" using j(1) i len by simp_all
  with eq assms(2) have "j = i" by (metis nth_eq_iff_index_eq)
  with j show "xs ! i = ys ! i" by simp
qed

lemma sort_key_fst_unique:
  fixes xs ys :: "(string \<times> 'a) list"
  assumes "distinct (map fst xs)" and "distinct (map fst ys)" and "set xs = set ys"
  shows "sort_key fst xs = sort_key fst ys"
proof -
  let ?xs = "sort_key fst xs" and ?ys = "sort_key fst ys"
  have dx: "distinct (map fst ?xs)" using assms(1) by (simp add: distinct_map)
  have dy: "distinct (map fst ?ys)" using assms(2) by (simp add: distinct_map)
  have "set (map fst ?xs) = set (map fst ?ys)" using assms(3) by simp
  then have m: "map fst ?xs = map fst ?ys"
    using dx dy by (intro sorted_distinct_set_unique) simp_all
  have st: "set ?xs = set ?ys" using assms(3) by simp
  show ?thesis by (rule assoc_eq_by_keys [OF m dy st])
qed

lemma insort_key_map:
  assumes "\<And>x. f (g x) = f' x"
  shows "insort_key f (g x) (map g xs) = map g (insort_key f' x xs)"
  by (induction xs) (simp_all add: assms)

lemma sort_key_map:
  assumes "\<And>x. f (g x) = f' x"
  shows "sort_key f (map g xs) = map g (sort_key f' xs)"
  by (induction xs) (simp_all add: insort_key_map [of f g f', OF assms])

lemma map_eq_of_list_all2:
  "list_all2 (\<lambda>x y. f x = f y) xs ys \<Longrightarrow> map f xs = map f ys"
  by (induction rule: list_all2_induct) simp_all

lemma encoded_items_eq:
  fixes kvs kvs' :: "(string \<times> json) list"
  assumes dx: "distinct (map fst kvs)" and dy: "distinct (map fst kvs')"
    and len: "length kvs = length kvs'"
    and sub: "\<forall>kv \<in> set kvs. \<exists>kv' \<in> set kvs'. fst kv' = fst kv \<and> c (snd kv) = c (snd kv')"
  shows "map (\<lambda>kv. (fst kv, c (snd kv))) (sort_key fst kvs) =
         map (\<lambda>kv. (fst kv, c (snd kv))) (sort_key fst kvs')"
proof -
  let ?g = "\<lambda>kv :: string \<times> json. (fst kv, c (snd kv))"
  have k: "map fst (map ?g kvs) = map fst kvs" "map fst (map ?g kvs') = map fst kvs'"
    by (simp_all add: comp_def)
  have d1: "distinct (map ?g kvs)" using dx k(1) by (metis distinct_map)
  have d2: "distinct (map ?g kvs')" using dy k(2) by (metis distinct_map)
  have "set (map ?g kvs) \<subseteq> set (map ?g kvs')"
  proof
    fix p assume "p \<in> set (map ?g kvs)"
    then obtain kv where kv: "kv \<in> set kvs" "p = ?g kv" by auto
    with sub obtain kv' where "kv' \<in> set kvs'" "fst kv' = fst kv" "c (snd kv) = c (snd kv')"
      by blast
    with kv have "p = ?g kv'" "kv' \<in> set kvs'" by simp_all
    then show "p \<in> set (map ?g kvs')" unfolding set_map by (rule image_eqI)
  qed
  moreover have "card (set (map ?g kvs)) = card (set (map ?g kvs'))"
    using distinct_card [OF d1] distinct_card [OF d2] len by simp
  ultimately have "set (map ?g kvs) = set (map ?g kvs')"
    by (simp add: card_subset_eq)
  moreover have "distinct (map fst (map ?g kvs))" "distinct (map fst (map ?g kvs'))"
    using dx dy by (simp_all only: k)
  ultimately have "sort_key fst (map ?g kvs) = sort_key fst (map ?g kvs')"
    by (intro sort_key_fst_unique)
  moreover have "sort_key fst (map ?g kvs) = map ?g (sort_key fst kvs)"
    by (rule sort_key_map) simp
  moreover have "sort_key fst (map ?g kvs') = map ?g (sort_key fst kvs')"
    by (rule sort_key_map) simp
  ultimately show ?thesis by simp
qed

lemma canonical_same_mapping: "same_mapping a b \<Longrightarrow> canonical a = canonical b"
proof (induction a b rule: same_mapping.induct)
  case (1 kvs kvs')
  from "1.prems" have dx: "distinct (map fst kvs)" and dy: "distinct (map fst kvs')"
    and len: "length kvs = length kvs'"
    and sub: "\<forall>kv \<in> set kvs. \<exists>kv' \<in> set kvs'. fst kv' = fst kv \<and> same_mapping (snd kv) (snd kv')"
    by simp_all
  have "\<forall>kv \<in> set kvs. \<exists>kv' \<in> set kvs'. fst kv' = fst kv \<and> canonical (snd kv) = canonical (snd kv')"
  proof
    fix kv assume kv: "kv \<in> set kvs"
    with sub obtain kv' where kv': "kv' \<in> set kvs'" "fst kv' = fst kv"
      "same_mapping (snd kv) (snd kv')" by blast
    from "1.IH" [OF kv kv'(1) kv'(3)]
    have "canonical (snd kv) = canonical (snd kv')" .
    with kv' show "\<exists>kv' \<in> set kvs'. fst kv' = fst kv \<and> canonical (snd kv) = canonical (snd kv')"
      by blast
  qed
  from encoded_items_eq [OF dx dy len this]
  have e: "map (\<lambda>kv. (fst kv, canonical (snd kv))) (sort_key fst kvs) =
           map (\<lambda>kv. (fst kv, canonical (snd kv))) (sort_key fst kvs')" .
  have "map (\<lambda>kv. json_string (fst kv) @ '':'' @ canonical (snd kv)) (sort_key fst kvs) =
        map (\<lambda>p. json_string (fst p) @ '':'' @ snd p)
          (map (\<lambda>kv. (fst kv, canonical (snd kv))) (sort_key fst kvs))"
    by (simp add: comp_def)
  also have "\<dots> = map (\<lambda>p. json_string (fst p) @ '':'' @ snd p)
          (map (\<lambda>kv. (fst kv, canonical (snd kv))) (sort_key fst kvs'))"
    by (simp only: e)
  also have "\<dots> = map (\<lambda>kv. json_string (fst kv) @ '':'' @ canonical (snd kv)) (sort_key fst kvs')"
    by (simp add: comp_def)
  finally show ?case by simp
next
  case (2 xs ys)
  from "2.prems" have l: "list_all2 same_mapping xs ys" by simp
  have "list_all2 (\<lambda>x y. canonical x = canonical y) xs ys"
  proof (rule list.rel_mono_strong [OF l])
    fix x y assume "x \<in> set xs" "y \<in> set ys" "same_mapping x y"
    then show "canonical x = canonical y" by (rule "2.IH")
  qed
  then have "map canonical xs = map canonical ys" by (rule map_eq_of_list_all2)
  then show ?case by simp
qed simp_all

lemma leaves_same_mapping:
  "list_all2 same_mapping items items' \<Longrightarrow> leaves_of H items = leaves_of H items'"
proof -
  assume a: "list_all2 same_mapping items items'"
  then have "map (\<lambda>x. H (canonical x)) items = map (\<lambda>x. H (canonical x)) items'"
    by (induction rule: list_all2_induct) (auto simp: canonical_same_mapping)
  then show ?thesis by (simp add: leaves_of_def)
qed

lemma root_of_two:
  "merkle_root H [a, b] = H (H (canonical a) @ H (canonical b))"
  by (simp add: merkle_root_def merkle_layers_def leaves_of_def build_layers.simps pad_even_def)

section \<open>The example ledger\<close>

lemma demo_genesis_fields:
  "difficulty demo_genesis = 1"
  "unconfirmed_transactions demo_genesis = []"
  "chain demo_genesis \<noteq> []"
  "length (chain demo_genesis) = 1"
  by (simp_all add: demo_genesis_def new_blockchain_def create_genesis_def save_chain_def Let_def)

lemma demo_pending_fields:
  "difficulty demo_pending = 1"
  "unconfirmed_transactions demo_pending = [cert_S1, cert_S2]"
  "chain demo_pending = chain demo_genesis"
  by (simp_all add: demo_pending_def demo_genesis_fields)

lemma demo_mine_empty:
  "mine demo_hash ''1700000207.25'' demo_genesis = Some (Inr (False, None, demo_genesis))"
  by (simp add: mine_empty demo_genesis_fields)

text \<open>The candidates with the nonces 0 and 1 are rejected, the one with the nonce 2 is accepted.\<close>

lemma demo_rejected:
  "\<forall>m \<in> set [0..<2]. \<not> startswith (hash (candidate demo_hash demo_start m)) (target 1)"
  by code_simp

lemma demo_accepted: "startswith (hash (candidate demo_hash demo_start 2)) (target 1)"
  by code_simp

lemma demo_search: "proof_of_work demo_hash 1 demo_start = Some demo_block"
  unfolding demo_block_def by (rule proof_of_work_first [OF demo_rejected demo_accepted])

lemma demo_start_eq:
  "Block demo_hash (index (last (chain demo_pending)) + 1)
     (unconfirmed_transactions demo_pending) ''1700000207.25''
     (hash (last (chain demo_pending))) 0 = demo_start"
  by (simp add: demo_start_def demo_pending_fields)

lemma demo_mine:
  "mine demo_hash ''1700000207.25'' demo_pending = Some (Inr (True, Some demo_block, demo_mined))"
proof -
  have ne: "unconfirmed_transactions demo_pending \<noteq> []" "chain demo_pending \<noteq> []"
    by (simp_all add: demo_pending_fields demo_genesis_fields)
  from mine_nonempty [OF ne, of demo_hash "''1700000207.25''"] demo_start_eq show ?thesis
    by (simp add: demo_pending_fields(1) demo_search demo_mined_def save_chain_def)
qed

lemma demo_nonce_hash:
  "hash (candidate demo_hash demo_start n) = compute_hash demo_hash (demo_start\<lparr>nonce := int n\<rparr>)"
  unfolding demo_start_def by (rule candidate_Block(1))

lemma demo_rejected_below:
  "\<forall>m<2. \<not> startswith (compute_hash demo_hash (demo_start\<lparr>nonce := int m\<rparr>)) (target 1)"
proof (intro allI impI)
  fix m :: nat assume "m < 2"
  then have "m \<in> set [0..<2]" by simp
  with demo_rejected have "\<not> startswith (hash (candidate demo_hash demo_start m)) (target 1)"
    by blast
  then show "\<not> startswith (compute_hash demo_hash (demo_start\<lparr>nonce := int m\<rparr>)) (target 1)"
    by (simp add: demo_nonce_hash)
qed

lemma demo_nonces:
  "\<not> startswith (compute_hash demo_hash (demo_start\<lparr>nonce := 0\<rparr>)) (target 1)"
  "\<not> startswith (compute_hash demo_hash (demo_start\<lparr>nonce := 1\<rparr>)) (target 1)"
  "startswith (compute_hash demo_hash (demo_start\<lparr>nonce := 2\<rparr>)) (target 1)"
  using demo_rejected_below [rule_format, of 0] demo_rejected_below [rule_format, of 1]
    demo_accepted demo_nonce_hash [of 2]
  by simp_all

lemma demo_block_fields:
  "nonce demo_block = 2"
  "index demo_block = 1"
  "transactions demo_block = [cert_S1, cert_S2]"
  by (simp_all add: demo_block_def demo_start_def candidate_def demo_pending_fields
      demo_genesis_def new_blockchain_def create_genesis_def save_chain_def Let_def)

lemma demo_submit_S1:
  "add_transaction ''S1'' ''Alice'' ''Math'' ''A'' 1700000000 demo_genesis =
     Inr (True, demo_genesis\<lparr>unconfirmed_transactions := [cert_S1]\<rparr>)"
  by (simp add: add_transaction_def demo_genesis_fields cert_S1_def certificate_def)

lemma demo_submit_S2:
  "add_transaction ''S2'' ''Bob'' ''Math'' ''B'' 1700000060
     (demo_genesis\<lparr>unconfirmed_transactions := [cert_S1]\<rparr>) = Inr (True, demo_pending)"
  by (simp add: add_transaction_def demo_pending_def cert_S1_def cert_S2_def certificate_def)

lemma demo_reachable_pending: "reachable demo_hash demo_pending"
proof -
  have "reachable demo_hash demo_genesis"
    unfolding demo_genesis_def by (rule reachable.init)
  from reachable.submit [OF this demo_submit_S1]
  have "reachable demo_hash (demo_genesis\<lparr>unconfirmed_transactions := [cert_S1]\<rparr>)" .
  from reachable.submit [OF this demo_submit_S2] show ?thesis .
qed

lemma demo_reachable_mined: "reachable demo_hash demo_mined"
  by (rule reachable.mined [OF demo_reachable_pending demo_mine])

lemma demo_mined_chain: "chain demo_mined = chain demo_genesis @ [demo_block]"
  by (simp add: demo_mined_def demo_pending_fields)

lemma length_demo_hash: "length (demo_hash x) = 4"
  by (simp add: demo_hash_def Let_def)

lemma demo_stuck_fields:
  "difficulty demo_stuck = 65"
  "unconfirmed_transactions demo_stuck \<noteq> []"
  "chain demo_stuck \<noteq> []"
  by (simp_all add: demo_stuck_def new_blockchain_def create_genesis_def save_chain_def Let_def)

lemma demo_stuck_rejected: "\<not> startswith (compute_hash demo_hash b) (target 65)"
  by (rule startswith_short) (simp add: compute_hash_def length_demo_hash)

lemma demo_no_chain_fields:
  "unconfirmed_transactions demo_no_chain \<noteq> []"
  "chain demo_no_chain = []"
  by (simp_all add: demo_no_chain_def demo_pending_fields)

lemma demo_layers:
  "merkle_layers demo_hash [cert_S1, cert_S2, cert_S3] =
     [[''c691'', ''9a81'', ''dda1''], [''6020'', ''4b20''], [''0c10'']]"
  by code_simp

section \<open>The claims\<close>

text \<open>
  C1 (Merkle round-trip). For every non-empty sequence of records and every leaf index \<open>i\<close>
  below its length, \<^verbatim>\<open>merkle_proof\<close> returns a proof for \<open>i\<close>, and verifying the \<open>i\<close>-th
  record with that proof against the root of the sequence gives true. This holds for every
  hash function.
\<close>

theorem merkle_roundtrip:
  assumes "i < length items"
  shows "\<exists>p. merkle_proof H items (int i) = Inr p \<and>
             verify_merkle_proof H (items ! i) p (merkle_root H items)"
proof -
  from assms have ne: "items \<noteq> []" by auto
  have "i < length (leaves_of H items)" using assms ne by (simp add: length_leaves_of)
  from roundtrip_layers [OF this, of H] assms ne show ?thesis
    by (simp add: merkle_proof_def verify_merkle_proof_def merkle_root_def merkle_layers_def
        leaves_of_nonempty)
qed


theorem merkle_roundtrip_witness:
  "1 < length [cert_S1, cert_S2, cert_S3] \<and>
   (\<exists>p. merkle_proof demo_hash [cert_S1, cert_S2, cert_S3] (int 1) = Inr p \<and>
        verify_merkle_proof demo_hash ([cert_S1, cert_S2, cert_S3] ! 1) p
          (merkle_root demo_hash [cert_S1, cert_S2, cert_S3]))"
  using merkle_roundtrip [of 1 "[cert_S1, cert_S2, cert_S3]" demo_hash] by simp

text \<open>
  C3 (odd-length padding), as amended. For every record sequence of odd length greater than
  one, the root equals the root of the sequence with its last record appended once more. The
  first layer holds the leaf digests; every further layer pairs the layer before it, and the
  last element of a layer of odd length is paired with itself; the last layer holds the root
  alone. So three records have the root \<open>H (H (l0 @ l1) @ H (l2 @ l2))\<close>. A single record is
  not padded: its root is its leaf digest.
\<close>

theorem odd_padding_root:
  "(odd (length items) \<and> 1 < length items \<longrightarrow>
      merkle_root H items = merkle_root H (items @ [last items])) \<and>
   merkle_root H [x] = H (canonical x) \<and>
   merkle_root H [x, y, z] =
     H (H (H (canonical x) @ H (canonical y)) @ H (H (canonical z) @ H (canonical z))) \<and>
   (items \<noteq> [] \<longrightarrow> merkle_layers H items ! 0 = map (\<lambda>x. H (canonical x)) items) \<and>
   (\<forall>k. Suc k < length (merkle_layers H items) \<longrightarrow>
      length (merkle_layers H items ! Suc k) = (length (merkle_layers H items ! k) + 1) div 2 \<and>
      (\<forall>j < (length (merkle_layers H items ! k) + 1) div 2.
         merkle_layers H items ! Suc k ! j =
           H (merkle_layers H items ! k ! (2 * j) @
              (if 2 * j + 1 < length (merkle_layers H items ! k)
               then merkle_layers H items ! k ! (2 * j + 1)
               else last (merkle_layers H items ! k))))) \<and>
   last (merkle_layers H items) = [merkle_root H items]"
proof -
  have c1: "odd (length items) \<and> 1 < length items \<longrightarrow>
      merkle_root H items = merkle_root H (items @ [last items])"
  proof
    assume a: "odd (length items) \<and> 1 < length items"
    then have ne: "items \<noteq> []" by auto
    let ?L = "leaves_of H items"
    have "leaves_of H (items @ [last items]) = ?L @ [last ?L]"
      using ne by (simp add: leaves_of_def last_map)
    also have "\<dots> = pad_even ?L"
      using a ne by (simp add: pad_even_def length_leaves_of odd_iff_mod_2_eq_one)
    finally have "leaves_of H (items @ [last items]) = pad_even ?L" .
    moreover have "length ?L > 1" using a ne by (simp add: length_leaves_of)
    ultimately show "merkle_root H items = merkle_root H (items @ [last items])"
      by (simp add: merkle_root_def merkle_layers_def root_pad_even)
  qed
  have c4: "items \<noteq> [] \<longrightarrow> merkle_layers H items ! 0 = map (\<lambda>x. H (canonical x)) items"
    by (simp add: merkle_layers_def build_layers_hd leaves_of_nonempty)
  have c5: "\<forall>k. Suc k < length (merkle_layers H items) \<longrightarrow>
      length (merkle_layers H items ! Suc k) = (length (merkle_layers H items ! k) + 1) div 2 \<and>
      (\<forall>j < (length (merkle_layers H items ! k) + 1) div 2.
         merkle_layers H items ! Suc k ! j =
           H (merkle_layers H items ! k ! (2 * j) @
              (if 2 * j + 1 < length (merkle_layers H items ! k)
               then merkle_layers H items ! k ! (2 * j + 1)
               else last (merkle_layers H items ! k))))"
  proof (intro allI impI)
    fix k assume "Suc k < length (merkle_layers H items)"
    then have "Suc k < length (build_layers H (leaves_of H items))"
      by (simp add: merkle_layers_def)
    from build_layers_step [OF this]
    have e: "merkle_layers H items ! Suc k = pair_up H (pad_even (merkle_layers H items ! k))"
      by (simp add: merkle_layers_def)
    have "length (merkle_layers H items ! Suc k) = (length (merkle_layers H items ! k) + 1) div 2"
      unfolding e by (simp add: length_pair_up length_pad_even) presburger
    moreover have "\<forall>j < (length (merkle_layers H items ! k) + 1) div 2.
         merkle_layers H items ! Suc k ! j =
           H (merkle_layers H items ! k ! (2 * j) @
              (if 2 * j + 1 < length (merkle_layers H items ! k)
               then merkle_layers H items ! k ! (2 * j + 1)
               else last (merkle_layers H items ! k)))"
      unfolding e by (intro allI impI) (rule paired_nth)
    ultimately show "length (merkle_layers H items ! Suc k) =
        (length (merkle_layers H items ! k) + 1) div 2 \<and>
      (\<forall>j < (length (merkle_layers H items ! k) + 1) div 2.
         merkle_layers H items ! Suc k ! j =
           H (merkle_layers H items ! k ! (2 * j) @
              (if 2 * j + 1 < length (merkle_layers H items ! k)
               then merkle_layers H items ! k ! (2 * j + 1)
               else last (merkle_layers H items ! k))))"
      by (rule conjI)
  qed
  have "leaves_of H items \<noteq> []" by (simp add: leaves_of_def Let_def)
  then have "length (last (merkle_layers H items)) = 1"
    unfolding merkle_layers_def by (rule build_layers_last)
  then have c6: "last (merkle_layers H items) = [merkle_root H items]"
    by (cases "last (merkle_layers H items)") (simp_all add: merkle_root_def)
  from c1 root_of_one [of H x] root_of_three [of H x y z] c4 c5 c6 show ?thesis
    by (intro conjI)
qed

theorem odd_padding_root_witness:
  "odd (length [cert_S1, cert_S2, cert_S3]) \<and> 1 < length [cert_S1, cert_S2, cert_S3] \<and>
   merkle_root demo_hash [cert_S1, cert_S2, cert_S3] =
     merkle_root demo_hash ([cert_S1, cert_S2, cert_S3] @ [last [cert_S1, cert_S2, cert_S3]]) \<and>
   merkle_root demo_hash [cert_S1] = demo_hash (canonical cert_S1) \<and>
   merkle_layers demo_hash [cert_S1, cert_S2, cert_S3] ! 0 =
     map (\<lambda>x. demo_hash (canonical x)) [cert_S1, cert_S2, cert_S3] \<and>
   Suc 0 < length (merkle_layers demo_hash [cert_S1, cert_S2, cert_S3]) \<and>
   1 < (length (merkle_layers demo_hash [cert_S1, cert_S2, cert_S3] ! 0) + 1) div 2 \<and>
   merkle_layers demo_hash [cert_S1, cert_S2, cert_S3] ! Suc 0 ! 1 =
     demo_hash (merkle_layers demo_hash [cert_S1, cert_S2, cert_S3] ! 0 ! 2 @
                last (merkle_layers demo_hash [cert_S1, cert_S2, cert_S3] ! 0)) \<and>
   last (merkle_layers demo_hash [cert_S1, cert_S2, cert_S3]) =
     [merkle_root demo_hash [cert_S1, cert_S2, cert_S3]]"
proof -
  note t = odd_padding_root [where items = "[cert_S1, cert_S2, cert_S3]" and H = demo_hash
      and x = cert_S1 and y = cert_S1 and z = cert_S1]
  have k: "Suc 0 < length (merkle_layers demo_hash [cert_S1, cert_S2, cert_S3])"
    and j: "1 < (length (merkle_layers demo_hash [cert_S1, cert_S2, cert_S3] ! 0) + 1) div 2"
    and l: "\<not> 2 * 1 + 1 < length (merkle_layers demo_hash [cert_S1, cert_S2, cert_S3] ! 0)"
    by (simp_all add: demo_layers)
  from t have "\<forall>k. Suc k < length (merkle_layers demo_hash [cert_S1, cert_S2, cert_S3]) \<longrightarrow>
      (\<forall>j < (length (merkle_layers demo_hash [cert_S1, cert_S2, cert_S3] ! k) + 1) div 2.
         merkle_layers demo_hash [cert_S1, cert_S2, cert_S3] ! Suc k ! j =
           demo_hash (merkle_layers demo_hash [cert_S1, cert_S2, cert_S3] ! k ! (2 * j) @
              (if 2 * j + 1 < length (merkle_layers demo_hash [cert_S1, cert_S2, cert_S3] ! k)
               then merkle_layers demo_hash [cert_S1, cert_S2, cert_S3] ! k ! (2 * j + 1)
               else last (merkle_layers demo_hash [cert_S1, cert_S2, cert_S3] ! k))))"
    by blast
  with k j have "merkle_layers demo_hash [cert_S1, cert_S2, cert_S3] ! Suc 0 ! 1 =
           demo_hash (merkle_layers demo_hash [cert_S1, cert_S2, cert_S3] ! 0 ! (2 * 1) @
              (if 2 * 1 + 1 < length (merkle_layers demo_hash [cert_S1, cert_S2, cert_S3] ! 0)
               then merkle_layers demo_hash [cert_S1, cert_S2, cert_S3] ! 0 ! (2 * 1 + 1)
               else last (merkle_layers demo_hash [cert_S1, cert_S2, cert_S3] ! 0)))"
    by blast
  with l have s: "merkle_layers demo_hash [cert_S1, cert_S2, cert_S3] ! Suc 0 ! 1 =
     demo_hash (merkle_layers demo_hash [cert_S1, cert_S2, cert_S3] ! 0 ! 2 @
                last (merkle_layers demo_hash [cert_S1, cert_S2, cert_S3] ! 0))"
    by simp
  from t have r: "merkle_root demo_hash [cert_S1, cert_S2, cert_S3] =
     merkle_root demo_hash ([cert_S1, cert_S2, cert_S3] @ [last [cert_S1, cert_S2, cert_S3]])"
    by simp
  from t have o: "merkle_root demo_hash [cert_S1] = demo_hash (canonical cert_S1)" by blast
  from t have f: "merkle_layers demo_hash [cert_S1, cert_S2, cert_S3] ! 0 =
     map (\<lambda>x. demo_hash (canonical x)) [cert_S1, cert_S2, cert_S3]" by blast
  from t have e: "last (merkle_layers demo_hash [cert_S1, cert_S2, cert_S3]) =
     [merkle_root demo_hash [cert_S1, cert_S2, cert_S3]]" by blast
  from r o f k j s e show ?thesis by simp
qed

text \<open>
  The rule does not extend to a single record. With one certificate the only layer is the
  leaf layer, so the root is the leaf digest; with the certificate appended once more there
  are two leaves and the root is the digest of their concatenation. The statement holds for
  the checksum of the examples; for a general hash function the two roots are \<open>H c\<close> and
  \<open>H (H c @ H c)\<close>, where \<open>c\<close> is the canonical encoding of the record.
\<close>

theorem odd_padding_single_record_counterexample:
  "odd (length [cert_S1]) \<and>
   merkle_root demo_hash [cert_S1] \<noteq> merkle_root demo_hash ([cert_S1] @ [last [cert_S1]])"
  by code_simp

text \<open>
  C4 (mining validity). Whenever \<^verbatim>\<open>mine\<close> succeeds, the hash of the block it returns starts
  with \<open>difficulty\<close> zero characters and equals the digest of the canonical encoding of the
  block's stored fields. This holds for every difficulty, the default 3 among them.
\<close>

theorem mining_validity:
  assumes "mine H now s = Some (Inr (True, Some b, s'))"
  shows "startswith (hash b) (target (difficulty s)) \<and> hash b = compute_hash H b"
proof -
  let ?nb = "Block H (index (last (chain s)) + 1) (unconfirmed_transactions s) now
               (hash (last (chain s))) 0"
  from assms have "proof_of_work H (difficulty s) ?nb = Some b"
    by (auto simp: mine_def Let_def split: if_splits option.splits)
  note r = proof_of_work_result [OF this]
  have "hash ?nb = compute_hash H ?nb" by simp
  with r show ?thesis by blast
qed


theorem mining_validity_witness:
  "mine demo_hash ''1700000207.25'' demo_pending = Some (Inr (True, Some demo_block, demo_mined)) \<and>
   difficulty demo_pending = 1 \<and> nonce demo_block = 2 \<and>
   startswith (hash demo_block) (target (difficulty demo_pending)) \<and>
   hash demo_block = compute_hash demo_hash demo_block"
proof -
  have "difficulty demo_pending = 1 \<and> nonce demo_block = 2"
    by (simp add: demo_pending_fields demo_block_fields)
  with mining_validity [OF demo_mine] demo_mine show ?thesis by blast
qed

text \<open>
  C5 (contract of \<^verbatim>\<open>mine\<close>), as amended. With an empty pending pool \<^verbatim>\<open>mine\<close> fails, returns
  no block and leaves the ledger unchanged, and it never reports this failure with a non-empty
  pool. With a non-empty pool and a non-empty chain (every ledger the constructor builds holds
  its genesis block) \<^verbatim>\<open>mine\<close> searches the nonces 0, 1, 2, ...: when none of them gives a
  block hash with the required prefix it never returns; otherwise it seals the block at the
  least such nonce, appends exactly this one block, with \<open>index = last.index + 1\<close>,
  \<open>previous_hash = last.hash\<close>, the pending records in their order and the hash of its own
  fields, clears the pool and writes the seven-field dictionaries of all blocks to the chain
  file. With a non-empty pool and an empty chain \<^verbatim>\<open>last_block\<close> raises \<^verbatim>\<open>IndexError\<close>.
\<close>

theorem mine_contract:
  fixes s :: blockchain and H :: hasher and now :: string
  defines "cand \<equiv> Block H (index (last (chain s)) + 1) (unconfirmed_transactions s) now
                     (hash (last (chain s))) 0"
  defines "accepted n \<equiv>
     startswith (compute_hash H (cand\<lparr>nonce := int n\<rparr>)) (target (difficulty s))"
  shows "(unconfirmed_transactions s = [] \<longrightarrow> mine H now s = Some (Inr (False, None, s))) \<and>
    (unconfirmed_transactions s \<noteq> [] \<longrightarrow>
       (\<forall>blk s'. mine H now s \<noteq> Some (Inr (False, blk, s')))) \<and>
    (unconfirmed_transactions s \<noteq> [] \<and> chain s \<noteq> [] \<and> (\<forall>n. \<not> accepted n) \<longrightarrow>
       mine H now s = None) \<and>
    (unconfirmed_transactions s \<noteq> [] \<and> chain s \<noteq> [] \<and> accepted n \<and> (\<forall>m<n. \<not> accepted m) \<longrightarrow>
       (\<exists>b. mine H now s =
              Some (Inr (True, Some b,
                s\<lparr>chain := chain s @ [b], unconfirmed_transactions := [],
                  chain_file := Some (JList (map (\<lambda>b. JDict
                    [(''index'', JInt (index b)),
                     (''transactions'', JList (transactions b)),
                     (''timestamp'', JFloat (timestamp b)),
                     (''previous_hash'', JStr (previous_hash b)),
                     (''nonce'', JInt (nonce b)),
                     (''merkle_root'', JStr (stored_root b)),
                     (''hash'', JStr (hash b))]) (chain s @ [b])))\<rparr>)) \<and>
            index b = index (last (chain s)) + 1 \<and>
            previous_hash b = hash (last (chain s)) \<and>
            transactions b = unconfirmed_transactions s \<and>
            timestamp b = now \<and>
            nonce b = int n \<and>
            stored_root b = merkle_root H (unconfirmed_transactions s) \<and>
            hash b = compute_hash H b)) \<and>
    (unconfirmed_transactions s \<noteq> [] \<and> chain s = [] \<longrightarrow> mine H now s = Some (Inl IndexError))"
proof -
  have acc: "\<And>n. accepted n = startswith (hash (candidate H cand n)) (target (difficulty s))"
    unfolding accepted_def cand_def by (simp add: candidate_Block(1))
  have c1: "unconfirmed_transactions s = [] \<longrightarrow> mine H now s = Some (Inr (False, None, s))"
    by (simp add: mine_empty)
  have c2: "unconfirmed_transactions s \<noteq> [] \<longrightarrow>
       (\<forall>blk s'. mine H now s \<noteq> Some (Inr (False, blk, s')))"
    by (auto simp: mine_def Let_def split: option.splits)
  have c3: "unconfirmed_transactions s \<noteq> [] \<and> chain s \<noteq> [] \<and> (\<forall>n. \<not> accepted n) \<longrightarrow>
       mine H now s = None"
  proof
    assume a: "unconfirmed_transactions s \<noteq> [] \<and> chain s \<noteq> [] \<and> (\<forall>n. \<not> accepted n)"
    then have "\<forall>n. \<not> startswith (hash (candidate H cand n)) (target (difficulty s))"
      by (simp add: acc)
    then have "proof_of_work H (difficulty s) cand = None" by (rule proof_of_work_none)
    with a show "mine H now s = None" unfolding cand_def by (simp add: mine_nonempty)
  qed
  have c4: "unconfirmed_transactions s \<noteq> [] \<and> chain s \<noteq> [] \<and> accepted n \<and> (\<forall>m<n. \<not> accepted m) \<longrightarrow>
       (\<exists>b. mine H now s =
              Some (Inr (True, Some b,
                s\<lparr>chain := chain s @ [b], unconfirmed_transactions := [],
                  chain_file := Some (JList (map (\<lambda>b. JDict
                    [(''index'', JInt (index b)),
                     (''transactions'', JList (transactions b)),
                     (''timestamp'', JFloat (timestamp b)),
                     (''previous_hash'', JStr (previous_hash b)),
                     (''nonce'', JInt (nonce b)),
                     (''merkle_root'', JStr (stored_root b)),
                     (''hash'', JStr (hash b))]) (chain s @ [b])))\<rparr>)) \<and>
            index b = index (last (chain s)) + 1 \<and>
            previous_hash b = hash (last (chain s)) \<and>
            transactions b = unconfirmed_transactions s \<and>
            timestamp b = now \<and>
            nonce b = int n \<and>
            stored_root b = merkle_root H (unconfirmed_transactions s) \<and>
            hash b = compute_hash H b)"
  proof
    assume a: "unconfirmed_transactions s \<noteq> [] \<and> chain s \<noteq> [] \<and> accepted n \<and> (\<forall>m<n. \<not> accepted m)"
    let ?b = "candidate H cand n"
    from a have "\<forall>m \<in> set [0..<n]. \<not> startswith (hash (candidate H cand m)) (target (difficulty s))"
      by (simp add: acc)
    moreover from a have "startswith (hash ?b) (target (difficulty s))" by (simp add: acc)
    ultimately have p: "proof_of_work H (difficulty s) cand = Some ?b"
      by (rule proof_of_work_first)
    have m: "mine H now s = Some (Inr (True, Some ?b,
            save_chain (s\<lparr>chain := chain s @ [?b], unconfirmed_transactions := []\<rparr>)))"
      using a p unfolding cand_def by (simp add: mine_nonempty)
    have f: "index ?b = index (last (chain s)) + 1" "previous_hash ?b = hash (last (chain s))"
      "transactions ?b = unconfirmed_transactions s" "timestamp ?b = now" "nonce ?b = int n"
      "stored_root ?b = merkle_root H (unconfirmed_transactions s)"
      unfolding cand_def by (simp_all only: candidate_Block(2-7))
    have g: "hash ?b = compute_hash H ?b" unfolding cand_def by (rule candidate_sealed)
    have "save_chain (s\<lparr>chain := chain s @ [?b], unconfirmed_transactions := []\<rparr>) =
        s\<lparr>chain := chain s @ [?b], unconfirmed_transactions := [],
                  chain_file := Some (JList (map (\<lambda>b. JDict
                    [(''index'', JInt (index b)),
                     (''transactions'', JList (transactions b)),
                     (''timestamp'', JFloat (timestamp b)),
                     (''previous_hash'', JStr (previous_hash b)),
                     (''nonce'', JInt (nonce b)),
                     (''merkle_root'', JStr (stored_root b)),
                     (''hash'', JStr (hash b))]) (chain s @ [?b])))\<rparr>"
      by (simp add: save_chain_def to_dict_def)
    with m f g show "\<exists>b. mine H now s =
              Some (Inr (True, Some b,
                s\<lparr>chain := chain s @ [b], unconfirmed_transactions := [],
                  chain_file := Some (JList (map (\<lambda>b. JDict
                    [(''index'', JInt (index b)),
                     (''transactions'', JList (transactions b)),
                     (''timestamp'', JFloat (timestamp b)),
                     (''previous_hash'', JStr (previous_hash b)),
                     (''nonce'', JInt (nonce b)),
                     (''merkle_root'', JStr (stored_root b)),
                     (''hash'', JStr (hash b))]) (chain s @ [b])))\<rparr>)) \<and>
            index b = index (last (chain s)) + 1 \<and>
            previous_hash b = hash (last (chain s)) \<and>
            transactions b = unconfirmed_transactions s \<and>
            timestamp b = now \<and>
            nonce b = int n \<and>
            stored_root b = merkle_root H (unconfirmed_transactions s) \<and>
            hash b = compute_hash H b"
      by (intro exI [of _ ?b]) (simp only: simp_thms)
  qed
  have c5: "unconfirmed_transactions s \<noteq> [] \<and> chain s = [] \<longrightarrow> mine H now s = Some (Inl IndexError)"
    by (simp add: mine_def)
  from c1 c2 c3 c4 c5 show ?thesis by (intro conjI)
qed

theorem mine_contract_witness:
  "unconfirmed_transactions demo_genesis = [] \<and>
   mine demo_hash ''1700000207.25'' demo_genesis = Some (Inr (False, None, demo_genesis)) \<and>
   unconfirmed_transactions demo_stuck \<noteq> [] \<and> chain demo_stuck \<noteq> [] \<and>
   mine demo_hash ''1700000207.25'' demo_stuck = None \<and>
   unconfirmed_transactions demo_pending \<noteq> [] \<and> chain demo_pending \<noteq> [] \<and>
   \<not> startswith (compute_hash demo_hash (demo_start\<lparr>nonce := 0\<rparr>)) (target 1) \<and>
   \<not> startswith (compute_hash demo_hash (demo_start\<lparr>nonce := 1\<rparr>)) (target 1) \<and>
   startswith (compute_hash demo_hash (demo_start\<lparr>nonce := 2\<rparr>)) (target 1) \<and>
   mine demo_hash ''1700000207.25'' demo_pending = Some (Inr (True, Some demo_block, demo_mined)) \<and>
   mine demo_hash ''1700000207.25'' demo_pending \<noteq> Some (Inr (False, None, demo_pending)) \<and>
   chain demo_mined = chain demo_pending @ [demo_block] \<and>
   unconfirmed_transactions demo_mined = [] \<and>
   index demo_block = index (last (chain demo_pending)) + 1 \<and>
   previous_hash demo_block = hash (last (chain demo_pending)) \<and>
   transactions demo_block = [cert_S1, cert_S2] \<and>
   timestamp demo_block = ''1700000207.25'' \<and>
   nonce demo_block = 2 \<and>
   stored_root demo_block = merkle_root demo_hash [cert_S1, cert_S2] \<and>
   hash demo_block = compute_hash demo_hash demo_block \<and>
   unconfirmed_transactions demo_no_chain \<noteq> [] \<and> chain demo_no_chain = [] \<and>
   mine demo_hash ''1700000207.25'' demo_no_chain = Some (Inl IndexError)"
proof -
  have p: "unconfirmed_transactions demo_pending \<noteq> []" "chain demo_pending \<noteq> []"
    by (simp_all add: demo_pending_fields demo_genesis_fields)
  from mine_contract [of demo_genesis demo_hash "''1700000207.25''"]
  have e: "mine demo_hash ''1700000207.25'' demo_genesis = Some (Inr (False, None, demo_genesis))"
    by (simp add: demo_genesis_fields)
  from mine_contract [of demo_stuck demo_hash "''1700000207.25''"]
  have st: "mine demo_hash ''1700000207.25'' demo_stuck = None"
    by (simp add: demo_stuck_fields demo_stuck_rejected)
  from mine_contract [of demo_no_chain demo_hash "''1700000207.25''"]
  have nc: "mine demo_hash ''1700000207.25'' demo_no_chain = Some (Inl IndexError)"
    by (simp add: demo_no_chain_fields)
  from mine_contract [of demo_pending demo_hash "''1700000207.25''"] p
  have nf: "mine demo_hash ''1700000207.25'' demo_pending \<noteq> Some (Inr (False, None, demo_pending))"
    by blast
  have h: "unconfirmed_transactions demo_pending \<noteq> [] \<and> chain demo_pending \<noteq> [] \<and>
     startswith (compute_hash demo_hash
        ((Block demo_hash (index (last (chain demo_pending)) + 1)
            (unconfirmed_transactions demo_pending) ''1700000207.25''
            (hash (last (chain demo_pending))) 0)\<lparr>nonce := int 2\<rparr>))
       (target (difficulty demo_pending)) \<and>
     (\<forall>m<2. \<not> startswith (compute_hash demo_hash
        ((Block demo_hash (index (last (chain demo_pending)) + 1)
            (unconfirmed_transactions demo_pending) ''1700000207.25''
            (hash (last (chain demo_pending))) 0)\<lparr>nonce := int m\<rparr>))
       (target (difficulty demo_pending)))"
    using p demo_nonces(3) demo_rejected_below
    by (simp only: demo_start_eq demo_pending_fields(1)) simp
  from mine_contract [of demo_pending demo_hash "''1700000207.25''" 2] h
  obtain b where b: "mine demo_hash ''1700000207.25'' demo_pending =
       Some (Inr (True, Some b,
         demo_pending\<lparr>chain := chain demo_pending @ [b], unconfirmed_transactions := [],
           chain_file := Some (JList (map (\<lambda>b. JDict
             [(''index'', JInt (index b)),
              (''transactions'', JList (transactions b)),
              (''timestamp'', JFloat (timestamp b)),
              (''previous_hash'', JStr (previous_hash b)),
              (''nonce'', JInt (nonce b)),
              (''merkle_root'', JStr (stored_root b)),
              (''hash'', JStr (hash b))]) (chain demo_pending @ [b])))\<rparr>))"
    and f: "index b = index (last (chain demo_pending)) + 1"
      "previous_hash b = hash (last (chain demo_pending))"
      "transactions b = unconfirmed_transactions demo_pending"
      "timestamp b = ''1700000207.25''" "nonce b = int 2"
      "stored_root b = merkle_root demo_hash (unconfirmed_transactions demo_pending)"
      "hash b = compute_hash demo_hash b"
    by blast
  from b demo_mine have bb: "b = demo_block" by simp
  from b bb have dm: "demo_mined =
         demo_pending\<lparr>chain := chain demo_pending @ [demo_block], unconfirmed_transactions := [],
           chain_file := Some (JList (map (\<lambda>b. JDict
             [(''index'', JInt (index b)),
              (''transactions'', JList (transactions b)),
              (''timestamp'', JFloat (timestamp b)),
              (''previous_hash'', JStr (previous_hash b)),
              (''nonce'', JInt (nonce b)),
              (''merkle_root'', JStr (stored_root b)),
              (''hash'', JStr (hash b))]) (chain demo_pending @ [demo_block])))\<rparr>"
    using demo_mine by simp
  have m1: "chain demo_mined = chain demo_pending @ [demo_block]"
    and m2: "unconfirmed_transactions demo_mined = []"
    by (subst dm, simp)+
  from f bb have g: "index demo_block = index (last (chain demo_pending)) + 1"
      "previous_hash demo_block = hash (last (chain demo_pending))"
      "transactions demo_block = [cert_S1, cert_S2]"
      "timestamp demo_block = ''1700000207.25''" "nonce demo_block = 2"
      "stored_root demo_block = merkle_root demo_hash [cert_S1, cert_S2]"
      "hash demo_block = compute_hash demo_hash demo_block"
    by (simp_all add: demo_pending_fields)
  from e st nc nf p demo_nonces demo_mine m1 m2 g show ?thesis
    by (simp add: demo_genesis_fields demo_stuck_fields demo_no_chain_fields)
qed

text \<open>
  A ledger of difficulty 65 with one pending certificate: the pool is not empty, and \<^verbatim>\<open>mine\<close>
  appends nothing, because its search never ends. No digest is long enough to start with 65
  zeros; a SHA-256 digest has 64 characters.
\<close>

theorem mine_unbounded_search_counterexample:
  "unconfirmed_transactions demo_stuck \<noteq> [] \<and> difficulty demo_stuck = 65 \<and>
   mine demo_hash ''1700000207.25'' demo_stuck = None"
proof -
  have "\<forall>x. length (demo_hash x) < nat (difficulty demo_stuck)"
    by (simp add: demo_stuck_fields length_demo_hash)
  from mine_unreachable_target [OF demo_stuck_fields(2,3) this] show ?thesis
    by (simp add: demo_stuck_fields)
qed

text \<open>
  C6 (chain linkage). In every ledger reached from a fresh one by submissions and mining runs,
  the chain is not empty, the genesis block has \<open>previous_hash = "0"\<close>, and every later block
  has the hash of the block before it as its \<open>previous_hash\<close>.
\<close>

theorem chain_linkage:
  assumes "reachable H s"
  shows "chain s \<noteq> [] \<and> previous_hash (chain s ! 0) = ''0'' \<and>
         (\<forall>k. 1 \<le> k \<and> k < length (chain s) \<longrightarrow>
              previous_hash (chain s ! k) = hash (chain s ! (k - 1)))"
proof -
  have "chain s \<noteq> [] \<and> previous_hash (chain s ! 0) = ''0'' \<and> linked (chain s)"
    using assms
  proof (induction rule: reachable.induct)
    case (init d now)
    show ?case
      by (simp add: new_blockchain_def create_genesis_def save_chain_def Let_def linked_def)
  next
    case (submit s sid name course grade now ok s')
    then show ?case by (simp add: add_transaction_chain)
  next
    case (mined s now ok blk s')
    from mine_chain [OF mined.hyps(2)] mined.IH
    show ?case by (auto simp: nth_append intro: linked_snoc)
  qed
  then show ?thesis by (simp add: linked_def)
qed


theorem chain_linkage_witness:
  "reachable demo_hash demo_mined \<and> (1::nat) \<le> 1 \<and> 1 < length (chain demo_mined) \<and>
   previous_hash (chain demo_mined ! 0) = ''0'' \<and>
   previous_hash (chain demo_mined ! 1) = hash (chain demo_mined ! (1 - 1))"
  using chain_linkage [OF demo_reachable_mined] demo_reachable_mined
  by (simp add: demo_mined_chain demo_genesis_fields)

text \<open>
  C7 (duplicate rejection is scoped to the pending pool). In every reachable ledger a
  submission returns failure and changes nothing exactly when the pool holds a record with the
  same student id and course, whatever the name and grade; otherwise it appends the new record
  and returns success. After a successful mining run the pool is empty, so every submission is
  accepted, also one whose student id and course are in the block just mined.
\<close>

theorem duplicate_rejection:
  assumes "reachable H s"
  shows "add_transaction sid name course grade now s =
     (if pending_has (unconfirmed_transactions s) sid course then Inr (False, s)
      else Inr (True, s\<lparr>unconfirmed_transactions :=
                          unconfirmed_transactions s @ [certificate sid name course grade now]\<rparr>)) \<and>
     (\<forall>t b s'. mine H t s = Some (Inr (True, Some b, s')) \<longrightarrow>
        add_transaction sid name course grade now s' =
          Inr (True, s'\<lparr>unconfirmed_transactions := [certificate sid name course grade now]\<rparr>))"
proof (intro conjI allI impI)
  show "add_transaction sid name course grade now s =
     (if pending_has (unconfirmed_transactions s) sid course then Inr (False, s)
      else Inr (True, s\<lparr>unconfirmed_transactions :=
                          unconfirmed_transactions s @ [certificate sid name course grade now]\<rparr>))"
    by (rule add_transaction_spec [OF reachable_pending [OF assms]])
next
  fix t b s'
  assume m: "mine H t s = Some (Inr (True, Some b, s'))"
  from mine_pending [OF m] have e: "unconfirmed_transactions s' = []" by simp
  then have "list_all has_identity (unconfirmed_transactions s')" by simp
  from add_transaction_spec [OF this, of sid name course grade now] e
  show "add_transaction sid name course grade now s' =
          Inr (True, s'\<lparr>unconfirmed_transactions := [certificate sid name course grade now]\<rparr>)"
    by (simp add: pending_has_def)
qed


theorem duplicate_rejection_witness:
  "reachable demo_hash demo_pending \<and>
   pending_has (unconfirmed_transactions demo_pending) ''S1'' ''Math'' \<and>
   add_transaction ''S1'' ''Alicia'' ''Math'' ''C'' 1700000300 demo_pending =
     Inr (False, demo_pending) \<and>
   \<not> pending_has (unconfirmed_transactions demo_pending) ''S1'' ''Physics'' \<and>
   add_transaction ''S1'' ''Alice'' ''Physics'' ''A'' 1700000300 demo_pending =
     Inr (True, demo_pending\<lparr>unconfirmed_transactions :=
        unconfirmed_transactions demo_pending @
          [certificate ''S1'' ''Alice'' ''Physics'' ''A'' 1700000300]\<rparr>) \<and>
   mine demo_hash ''1700000207.25'' demo_pending = Some (Inr (True, Some demo_block, demo_mined)) \<and>
   cert_S1 \<in> set (transactions demo_block) \<and>
   add_transaction ''S1'' ''Alice'' ''Math'' ''A'' 1700000000 demo_mined =
     Inr (True, demo_mined\<lparr>unconfirmed_transactions := [cert_S1]\<rparr>)"
proof -
  have a: "pending_has (unconfirmed_transactions demo_pending) ''S1'' ''Math''"
    by (simp add: pending_has_def demo_pending_fields cert_S1_def cert_S2_def certificate_def)
  have b: "\<not> pending_has (unconfirmed_transactions demo_pending) ''S1'' ''Physics''"
    by (simp add: pending_has_def demo_pending_fields cert_S1_def cert_S2_def certificate_def)
  have c: "cert_S1 \<in> set (transactions demo_block)" by (simp add: demo_block_fields)
  from duplicate_rejection [OF demo_reachable_pending, of "''S1''" "''Alicia''" "''Math''" "''C''" 1700000300]
    duplicate_rejection [OF demo_reachable_pending, of "''S1''" "''Alice''" "''Physics''" "''A''" 1700000300]
    duplicate_rejection [OF demo_reachable_pending, of "''S1''" "''Alice''" "''Math''" "''A''" 1700000000]
    a b c demo_mine demo_reachable_pending
  show ?thesis by (simp add: cert_S1_def)
qed

text \<open>
  C8 (determinism of the canonical encoding). Two values with the same content encode to the
  same bytes, whatever the order in which the fields of their dictionaries were inserted, at
  every nesting level. Consequently record sequences with the same content have the same Merkle
  root, and blocks that differ only in the insertion order inside their records have the same
  hash. The functions are pure, so repeated calls on the same records give the same result.
\<close>

theorem canonical_determinism:
  "(same_mapping a b \<longrightarrow> canonical a = canonical b) \<and>
   (list_all2 same_mapping items items' \<longrightarrow> merkle_root H items = merkle_root H items') \<and>
   (list_all2 same_mapping txs txs' \<longrightarrow>
      compute_hash H (Block H i txs ts prev n) = compute_hash H (Block H i txs' ts prev n))"
proof (intro conjI impI)
  assume "same_mapping a b"
  then show "canonical a = canonical b" by (rule canonical_same_mapping)
next
  assume "list_all2 same_mapping items items'"
  then have "leaves_of H items = leaves_of H items'" by (rule leaves_same_mapping)
  then show "merkle_root H items = merkle_root H items'"
    by (simp add: merkle_root_def merkle_layers_def)
next
  assume a: "list_all2 same_mapping txs txs'"
  then have "leaves_of H txs = leaves_of H txs'" by (rule leaves_same_mapping)
  then have r: "merkle_root H txs = merkle_root H txs'"
    by (simp add: merkle_root_def merkle_layers_def)
  from a have "map canonical txs = map canonical txs'"
    by (induction rule: list_all2_induct) (simp_all add: canonical_same_mapping)
  then have "canonical (JList txs) = canonical (JList txs')" by simp
  then have "canonical (JDict
       [(''index'', JInt i), (''transactions'', JList txs), (''timestamp'', JFloat ts),
        (''previous_hash'', JStr prev), (''nonce'', JInt n),
        (''merkle_root'', JStr (merkle_root H txs))]) =
     canonical (JDict
       [(''index'', JInt i), (''transactions'', JList txs'), (''timestamp'', JFloat ts),
        (''previous_hash'', JStr prev), (''nonce'', JInt n),
        (''merkle_root'', JStr (merkle_root H txs'))])"
    by (simp add: r)
  then show "compute_hash H (Block H i txs ts prev n) = compute_hash H (Block H i txs' ts prev n)"
    by (simp only: compute_hash_def Block_fields)
qed

theorem canonical_determinism_witness:
  "same_mapping transcript transcript_reordered \<and>
   transcript \<noteq> transcript_reordered \<and>
   canonical transcript = canonical transcript_reordered \<and>
   list_all2 same_mapping [transcript, cert_S1] [transcript_reordered, cert_S1_reordered] \<and>
   merkle_root demo_hash [transcript, cert_S1] =
     merkle_root demo_hash [transcript_reordered, cert_S1_reordered] \<and>
   compute_hash demo_hash (Block demo_hash 1 [transcript, cert_S1] ''1700000207.25'' ''ed02'' 2) =
     compute_hash demo_hash
       (Block demo_hash 1 [transcript_reordered, cert_S1_reordered] ''1700000207.25'' ''ed02'' 2)"
proof -
  have a: "same_mapping transcript transcript_reordered"
    by (simp add: transcript_def transcript_reordered_def)
  have b: "same_mapping cert_S1 cert_S1_reordered"
    by (simp add: cert_S1_def cert_S1_reordered_def certificate_def)
  have c: "transcript \<noteq> transcript_reordered"
    by (simp add: transcript_def transcript_reordered_def)
  from canonical_determinism [of transcript transcript_reordered "[transcript, cert_S1]"
      "[transcript_reordered, cert_S1_reordered]" demo_hash "[transcript, cert_S1]"
      "[transcript_reordered, cert_S1_reordered]" 1 "''1700000207.25''" "''ed02''" 2] a b c
  show ?thesis by simp
qed

text \<open>
  C9 (invalid proof index), as amended. \<^verbatim>\<open>merkle_proof\<close> does not check its index. With at
  least two records it raises \<^verbatim>\<open>IndexError\<close> exactly when the index is at or above the number
  of records rounded up to an even number, or below the negative of that number; every index
  in between yields a proof, also a negative one and, for an odd number of records, the index
  equal to that number. With fewer than two records every index yields the empty proof.
\<close>

theorem merkle_proof_index_error:
  fixes index :: int
  defines "padded n \<equiv> int (n + n mod 2)"
  shows "(2 \<le> length items \<and> (index < - padded (length items) \<or> padded (length items) \<le> index)
            \<longrightarrow> merkle_proof H items index = Inl IndexError) \<and>
         (2 \<le> length items \<and> - padded (length items) \<le> index \<and> index < padded (length items)
            \<longrightarrow> (\<exists>p. merkle_proof H items index = Inr p)) \<and>
         (length items \<le> 1 \<longrightarrow> merkle_proof H items index = Inr [])"
proof (intro conjI impI)
  assume a: "2 \<le> length items \<and> (index < - padded (length items) \<or> padded (length items) \<le> index)"
  then have ne: "items \<noteq> []" by auto
  have "length (leaves_of H items) > 1" using a ne by (simp add: length_leaves_of)
  moreover have "int (length (pad_even (leaves_of H items))) = padded (length items)"
    using ne by (simp add: length_pad_even length_leaves_of padded_def)
  ultimately show "merkle_proof H items index = Inl IndexError"
    using a proof_loop_fails_first [of "leaves_of H items" index H]
    by (simp add: merkle_proof_def merkle_layers_def)
next
  assume a: "2 \<le> length items \<and> - padded (length items) \<le> index \<and> index < padded (length items)"
  then have ne: "items \<noteq> []" by auto
  have "int (length (pad_even (leaves_of H items))) = padded (length items)"
    using ne by (simp add: length_pad_even length_leaves_of padded_def)
  then show "\<exists>p. merkle_proof H items index = Inr p"
    using a proof_loop_succeeds [of "leaves_of H items" index H]
    by (simp add: merkle_proof_def merkle_layers_def)
next
  assume "length items \<le> 1"
  then have "length (leaves_of H items) \<le> 1" by (rule length_leaves_le1)
  then have "proof_loop (butlast (build_layers H (leaves_of H items))) index = Inr []"
    by (rule proof_loop_single)
  then show "merkle_proof H items index = Inr []"
    by (simp add: merkle_proof_def merkle_layers_def)
qed


theorem merkle_proof_index_error_witness:
  "2 \<le> length [cert_S1, cert_S2, cert_S3] \<and>
   int (length [cert_S1, cert_S2, cert_S3] + length [cert_S1, cert_S2, cert_S3] mod 2) \<le> 4 \<and>
   merkle_proof demo_hash [cert_S1, cert_S2, cert_S3] 4 = Inl IndexError \<and>
   - int (length [cert_S1, cert_S2, cert_S3] + length [cert_S1, cert_S2, cert_S3] mod 2) \<le> 3 \<and>
   3 < int (length [cert_S1, cert_S2, cert_S3] + length [cert_S1, cert_S2, cert_S3] mod 2) \<and>
   (\<exists>p. merkle_proof demo_hash [cert_S1, cert_S2, cert_S3] 3 = Inr p) \<and>
   length [cert_S1] \<le> 1 \<and> merkle_proof demo_hash [cert_S1] 7 = Inr []"
  using merkle_proof_index_error [of "[cert_S1, cert_S2, cert_S3]" 4 demo_hash]
    merkle_proof_index_error [of "[cert_S1, cert_S2, cert_S3]" 3 demo_hash]
    merkle_proof_index_error [of "[cert_S1]" 7 demo_hash]
  by simp

text \<open>
  Three certificates have the leaf indices 0, 1 and 2. The indices 3 and \<open>-1\<close> are outside that
  range, and both return the proof of the duplicate of the last leaf; with one certificate
  the index 7 returns the empty proof.
\<close>

theorem merkle_proof_out_of_range_counterexample:
  "int (length [cert_S1, cert_S2, cert_S3]) \<le> 3 \<and>
   merkle_proof demo_hash [cert_S1, cert_S2, cert_S3] 3 =
     Inr [(''dda1'', ''L''), (''6020'', ''L'')] \<and>
   (-1 :: int) < 0 \<and>
   merkle_proof demo_hash [cert_S1, cert_S2, cert_S3] (-1) =
     Inr [(''dda1'', ''L''), (''6020'', ''L'')] \<and>
   int (length [cert_S1]) \<le> 7 \<and>
   merkle_proof demo_hash [cert_S1] 7 = Inr []"
  by code_simp

text \<open>
  C10 (side tags are not validated). \<^verbatim>\<open>verify_merkle_proof\<close> treats every tag other than
  \<open>L\<close> as \<open>R\<close>: two proofs with the same sibling digests whose tags agree on being \<open>L\<close> give the
  same result, and a proof whose tag is any string other than \<open>L\<close> verifies the first of two
  records against their root.
\<close>

theorem side_tags_unchecked:
  "(list_all2 (\<lambda>x y. fst x = fst y \<and> (snd x = ''L'' \<longleftrightarrow> snd y = ''L'')) p q \<longrightarrow>
      verify_merkle_proof H leaf p root = verify_merkle_proof H leaf q root) \<and>
   (tag \<noteq> ''L'' \<longrightarrow>
      verify_merkle_proof H a [(H (canonical b), tag)] (merkle_root H [a, b]))"
proof (intro conjI impI)
  assume "list_all2 (\<lambda>x y. fst x = fst y \<and> (snd x = ''L'' \<longleftrightarrow> snd y = ''L'')) p q"
  then have "verify_loop H (H (canonical leaf)) p = verify_loop H (H (canonical leaf)) q"
    by (rule verify_loop_tags)
  then show "verify_merkle_proof H leaf p root = verify_merkle_proof H leaf q root"
    by (simp add: verify_merkle_proof_def)
next
  assume "tag \<noteq> ''L''"
  then show "verify_merkle_proof H a [(H (canonical b), tag)] (merkle_root H [a, b])"
    by (simp add: verify_merkle_proof_def root_of_two)
qed


theorem side_tags_unchecked_witness:
  "list_all2 (\<lambda>x y. fst x = fst y \<and> (snd x = ''L'' \<longleftrightarrow> snd y = ''L''))
     [(''c691'', ''L''), (''4b20'', ''R'')] [(''c691'', ''L''), (''4b20'', ''right'')] \<and>
   verify_merkle_proof demo_hash cert_S2 [(''c691'', ''L''), (''4b20'', ''R'')] ''0c10'' =
   verify_merkle_proof demo_hash cert_S2 [(''c691'', ''L''), (''4b20'', ''right'')] ''0c10'' \<and>
   ''X'' \<noteq> ''L'' \<and>
   verify_merkle_proof demo_hash cert_S1 [(demo_hash (canonical cert_S2), ''X'')]
     (merkle_root demo_hash [cert_S1, cert_S2])"
  using side_tags_unchecked [of "[(''c691'', ''L''), (''4b20'', ''R'')]"
      "[(''c691'', ''L''), (''4b20'', ''right'')]" demo_hash cert_S2 "''0c10''" "''X''" cert_S1 cert_S2]
  by simp

end
